theory Spec2Isabelle
  imports Main "HOL-Library.Sublist" "HOL-Library.Char_ord" "HOL-Library.List_Lexorder"
begin

section \<open>Go strings\<close>

text \<open>
  A Go string is a sequence of bytes, here a \<^typ>\<open>string\<close>. The order of \<^typ>\<open>string\<close>
  (bytes compared as numbers, a proper prefix first) is the order of Go's \<open><\<close> on strings,
  the one \<open>sort.Strings\<close> sorts by.
\<close>

definition HasPrefix :: "string \<Rightarrow> string \<Rightarrow> bool" where
  "HasPrefix s p = prefix p s"

definition HasSuffix :: "string \<Rightarrow> string \<Rightarrow> bool" where
  "HasSuffix s p = suffix p s"

definition TrimPrefix :: "string \<Rightarrow> string \<Rightarrow> string" where
  "TrimPrefix s p = (if HasPrefix s p then drop (length p) s else s)"

definition TrimSuffix :: "string \<Rightarrow> string \<Rightarrow> string" where
  "TrimSuffix s p = (if HasSuffix s p then take (length s - length p) s else s)"

text \<open>
  \<open>strings.Split(s, sep)\<close> for a separator of one byte: the pieces between the separators,
  one piece more than there are separators (so \<open>[""]\<close> for the empty string).
\<close>

fun Split :: "string \<Rightarrow> char \<Rightarrow> string list" where
  "Split [] d = [[]]"
| "Split (c # cs) d =
     (if c = d then [] # Split cs d
      else (case Split cs d of [] \<Rightarrow> [[c]] | w # ws \<Rightarrow> (c # w) # ws))"

text \<open>\<open>strings.Join(elems, sep)\<close>.\<close>

fun Join :: "string list \<Rightarrow> string \<Rightarrow> string" where
  "Join [] sep = []"
| "Join [x] sep = x"
| "Join (x # y # ys) sep = x @ sep @ Join (y # ys) sep"

text \<open>
  \<open>strings.TrimSpace\<close> removes the leading and the trailing white space as Unicode defines
  it (\<open>unicode.IsSpace\<close>), decoding the bytes as UTF-8. The white-space code points and
  their encodings: U+0009 to U+000D, U+0020, U+0085, U+00A0, U+1680, U+2000 to U+200A,
  U+2028, U+2029, U+202F, U+205F, U+3000. A byte sequence that is not the encoding of one
  of them decodes to some other rune (or to the error rune) and stops the trimming.
\<close>

definition spaceRunes :: "string list" where
  "spaceRunes =
     [[CHR 0x09], [CHR 0x0A], [CHR 0x0B], [CHR 0x0C], [CHR 0x0D], [CHR 0x20],
      [CHR 0xC2, CHR 0x85], [CHR 0xC2, CHR 0xA0],
      [CHR 0xE1, CHR 0x9A, CHR 0x80],
      [CHR 0xE2, CHR 0x80, CHR 0x80], [CHR 0xE2, CHR 0x80, CHR 0x81],
      [CHR 0xE2, CHR 0x80, CHR 0x82], [CHR 0xE2, CHR 0x80, CHR 0x83],
      [CHR 0xE2, CHR 0x80, CHR 0x84], [CHR 0xE2, CHR 0x80, CHR 0x85],
      [CHR 0xE2, CHR 0x80, CHR 0x86], [CHR 0xE2, CHR 0x80, CHR 0x87],
      [CHR 0xE2, CHR 0x80, CHR 0x88], [CHR 0xE2, CHR 0x80, CHR 0x89],
      [CHR 0xE2, CHR 0x80, CHR 0x8A],
      [CHR 0xE2, CHR 0x80, CHR 0xA8], [CHR 0xE2, CHR 0x80, CHR 0xA9],
      [CHR 0xE2, CHR 0x80, CHR 0xAF],
      [CHR 0xE2, CHR 0x81, CHR 0x9F],
      [CHR 0xE3, CHR 0x80, CHR 0x80]]"

text \<open>The width in bytes of the white-space rune a string starts with, 0 when it starts
  with none; and the same for the rune it ends with.\<close>

definition leadingSpace :: "string \<Rightarrow> nat" where
  "leadingSpace s = (case find (\<lambda>w. prefix w s) spaceRunes of None \<Rightarrow> 0 | Some w \<Rightarrow> length w)"

definition trailingSpace :: "string \<Rightarrow> nat" where
  "trailingSpace s = (case find (\<lambda>w. suffix w s) spaceRunes of None \<Rightarrow> 0 | Some w \<Rightarrow> length w)"

lemma leadingSpace_le: "leadingSpace s \<le> length s"
  by (auto simp: leadingSpace_def find_Some_iff prefix_def split: option.splits)

lemma trailingSpace_le: "trailingSpace s \<le> length s"
  by (auto simp: trailingSpace_def find_Some_iff suffix_def split: option.splits)

function TrimLeft :: "string \<Rightarrow> string" where
  "TrimLeft s = (if leadingSpace s = 0 then s else TrimLeft (drop (leadingSpace s) s))"
  by pat_completeness auto
termination
proof (relation "measure length")
  fix s :: string
  assume "leadingSpace s \<noteq> 0"
  with leadingSpace_le [of s] show "(drop (leadingSpace s) s, s) \<in> measure length"
    by simp
qed simp

function TrimRight :: "string \<Rightarrow> string" where
  "TrimRight s =
     (if trailingSpace s = 0 then s else TrimRight (take (length s - trailingSpace s) s))"
  by pat_completeness auto
termination
proof (relation "measure length")
  fix s :: string
  assume "trailingSpace s \<noteq> 0"
  with trailingSpace_le [of s] show "(take (length s - trailingSpace s) s, s) \<in> measure length"
    by simp
qed simp

declare TrimLeft.simps [simp del] TrimRight.simps [simp del]

definition TrimSpace :: "string \<Rightarrow> string" where
  "TrimSpace s = TrimRight (TrimLeft s)"

section \<open>File paths (package path/filepath, on Unix)\<close>

text \<open>
  The tool works on \<open>~/.ssh\<close>; paths are Unix paths with the separator \<open>/\<close> and no
  volume name.
\<close>

definition IsAbs :: "string \<Rightarrow> bool" where
  "IsAbs p = HasPrefix p ''/''"

text \<open>
  \<open>filepath.Clean\<close>: the path is read element by element. Empty elements and \<open>.\<close> are
  dropped; \<open>..\<close> removes the element written last when that is a real element, is dropped at
  the root, and is kept otherwise (a leading \<open>../..\<close>). \<open>cleanStep\<close> is one round of that
  loop on the elements written so far (in order); the result is the elements joined by
  \<open>/\<close>, after the leading \<open>/\<close> of a rooted path, and \<open>.\<close> when nothing was written.
\<close>

definition cleanStep :: "bool \<Rightarrow> string list \<Rightarrow> string \<Rightarrow> string list" where
  "cleanStep rooted out e =
     (if e = [] \<or> e = ''.'' then out
      else if e = ''..'' then
        (if out \<noteq> [] \<and> last out \<noteq> ''..'' then butlast out
         else if rooted then out
         else out @ [e])
      else out @ [e])"

definition Clean :: "string \<Rightarrow> string" where
  "Clean p =
     (let rooted = IsAbs p;
          out = foldl (cleanStep rooted) [] (Split p CHR ''/'')
      in if rooted then ''/'' @ Join out ''/''
         else if out = [] then ''.''
         else Join out ''/'')"

text \<open>\<open>filepath.Join\<close> of two elements: empty elements in front are skipped, the rest is
  joined by \<open>/\<close> and cleaned; the result is empty when both elements are.\<close>

definition JoinPath :: "string \<Rightarrow> string \<Rightarrow> string" where
  "JoinPath a b =
     (if a \<noteq> [] then Clean (a @ ''/'' @ b)
      else if b \<noteq> [] then Clean b
      else [])"

text \<open>\<open>filepath.Base\<close>: the last element of the path, trailing slashes removed first;
  \<open>.\<close> for the empty path and \<open>/\<close> for a path of slashes only.\<close>

definition Base :: "string \<Rightarrow> string" where
  "Base p =
     (if p = [] then ''.''
      else let q = rev (dropWhile (\<lambda>c. c = CHR ''/'') (rev p));
               e = rev (takeWhile (\<lambda>c. c \<noteq> CHR ''/'') (rev q))
           in if e = [] then ''/'' else e)"

section \<open>The environment of a run\<close>

text \<open>
  Each command is one run of the process. What a run reads from the operating system, and
  what it changes, is a \<open>world\<close>: the home directory \<open>user.Current()\<close> reports (\<open>None\<close> when
  the lookup fails), the working directory of \<open>os.Getwd()\<close>, the regular files by path
  with their contents, the paths the system refuses to write or remove, the listing
  \<open>os.ReadDir\<close> gives for a directory, the modification times \<open>os.Stat\<close> reports, and the
  text printed so far. A path names a file as the string it is. No command both changes
  files and lists a directory or reads a time: the listing and the times are those at the
  start of the run.
\<close>

datatype error = UserLookupFailed | GetwdFailed | FileError string

record world =
  currentUser :: "string option"
  workingDir :: "string option"
  files :: "string \<rightharpoonup> string"
  protected :: "string set"
  readDir :: "string \<rightharpoonup> (string \<times> bool) list"
  modTime :: "string \<Rightarrow> nat"
  stdout :: string

definition newline :: char where
  "newline = CHR 0x0A"

definition ReadFile :: "world \<Rightarrow> string \<Rightarrow> error + string" where
  "ReadFile w p = (case files w p of None \<Rightarrow> Inl (FileError p) | Some content \<Rightarrow> Inr content)"

definition WriteFile :: "world \<Rightarrow> string \<Rightarrow> string \<Rightarrow> error + world" where
  "WriteFile w p content =
     (if p \<in> protected w then Inl (FileError p)
      else Inr (w\<lparr>files := (files w)(p \<mapsto> content)\<rparr>))"

definition Remove :: "world \<Rightarrow> string \<Rightarrow> error + world" where
  "Remove w p =
     (if files w p = None \<or> p \<in> protected w then Inl (FileError p)
      else Inr (w\<lparr>files := (files w)(p := None)\<rparr>))"

definition Print :: "world \<Rightarrow> string \<Rightarrow> world" where
  "Print w text = w\<lparr>stdout := stdout w @ text\<rparr>"

text \<open>The names \<open>os.ReadDir\<close> reports are names of directory entries: they hold no
  separator.\<close>

definition properListing :: "world \<Rightarrow> bool" where
  "properListing w \<longleftrightarrow>
     (\<forall>dir entries fileName isDir.
        readDir w dir = Some entries \<and> (fileName, isDir) \<in> set entries \<longrightarrow>
        CHR ''/'' \<notin> set fileName)"

text \<open>\<open>log.Fatal(err)\<close> ends the run: the outcome of a command is the error together with
  the world it leaves, or the world after the command.\<close>

type_synonym outcome = "(error \<times> world) + world"

section \<open>Maps and the order of \<open>range\<close>\<close>

text \<open>
  The configuration is a \<open>map[string][]string\<close>. Reading a key that is absent gives the nil
  slice. A \<open>range\<close> loop over a map visits each key once, in an order the Go runtime chooses
  anew for every loop: \<open>rangeOrder m ks\<close> says that \<open>ks\<close> is such an order. A function with
  one such loop takes the order as its first argument (\<open>findMultipleMappings\<close>, with two
  loops, takes two); a command takes a \<open>sched\<close>, which gives the order of every \<open>range\<close>
  loop of the run by the place of the loop: the loop of \<open>getLastHost\<close> called for the line
  of a given index, the loop of \<open>writeConfig\<close>, of \<open>deleteKey\<close>, of \<open>listUnusedKeys\<close>.
  \<open>validSched\<close> says that every order it gives is an order of the map at hand.
\<close>

type_synonym config = "string \<rightharpoonup> string list"

definition lookup :: "config \<Rightarrow> string \<Rightarrow> string list" where
  "lookup config host = (case config host of None \<Rightarrow> [] | Some keyPaths \<Rightarrow> keyPaths)"

definition rangeOrder :: "config \<Rightarrow> string list \<Rightarrow> bool" where
  "rangeOrder m ks \<longleftrightarrow> distinct ks \<and> set ks = dom m"

datatype site = GetLastHost nat | WriteConfig | DeleteKey | ListUnusedKeys

type_synonym sched = "site \<Rightarrow> config \<Rightarrow> string list"

definition validSched :: "sched \<Rightarrow> bool" where
  "validSched sched \<longleftrightarrow> (\<forall>s m. finite (dom m) \<longrightarrow> rangeOrder m (sched s m))"

section \<open>Paths of the tool\<close>

definition sshDir :: string where "sshDir = ''.ssh''"
definition configFile :: string where "configFile = ''config''"
definition keyFileExt :: string where "keyFileExt = ''.pub''"
definition commentLine :: string where "commentLine = ''Comment: ''"

definition getSSHPath :: "world \<Rightarrow> error + string" where
  "getSSHPath w =
     (case currentUser w of None \<Rightarrow> Inl UserLookupFailed
      | Some homeDir \<Rightarrow> Inr (JoinPath homeDir sshDir))"

definition getConfigPath :: "world \<Rightarrow> error + string" where
  "getConfigPath w =
     (case getSSHPath w of Inl err \<Rightarrow> Inl err
      | Inr sshPath \<Rightarrow> Inr (JoinPath sshPath configFile))"

text \<open>\<open>filepath.Abs\<close>: an absolute path is cleaned, any other is joined to the working
  directory.\<close>

definition Abs :: "world \<Rightarrow> string \<Rightarrow> error + string" where
  "Abs w p =
     (if IsAbs p then Inr (Clean p)
      else (case workingDir w of None \<Rightarrow> Inl GetwdFailed | Some wd \<Rightarrow> Inr (JoinPath wd p)))"

definition expandPath :: "world \<Rightarrow> string \<Rightarrow> error + string" where
  "expandPath w p =
     (if HasPrefix p ''~'' then
        (case currentUser w of None \<Rightarrow> Inl UserLookupFailed
         | Some homeDir \<Rightarrow> Inr (JoinPath homeDir (drop 1 p)))
      else Abs w p)"

definition getFullKeyPath :: "world \<Rightarrow> string \<Rightarrow> error + string" where
  "getFullKeyPath w key =
     (case getSSHPath w of Inl err \<Rightarrow> Inl err
      | Inr sshPath \<Rightarrow> if IsAbs key then Inr key else Inr (JoinPath sshPath key))"

section \<open>The configuration file\<close>

text \<open>\<open>getLastHost\<close>: the loop assigns every key it visits; \<open>ks\<close> is the order of its
  \<open>range\<close>.\<close>

definition getLastHost :: "string list \<Rightarrow> config \<Rightarrow> string" where
  "getLastHost ks config = foldl (\<lambda>lastHost host. host) [] ks"

text \<open>The loop of \<open>parseConfig\<close> over the lines; \<open>i\<close> is the index of the line.\<close>

fun parseLines :: "sched \<Rightarrow> world \<Rightarrow> nat \<Rightarrow> string list \<Rightarrow> config \<Rightarrow> error + config" where
  "parseLines sched w i [] config = Inr config"
| "parseLines sched w i (l # ls) config =
     (let line = TrimSpace l in
      if HasPrefix line ''Host '' then
        (let host = TrimSpace (TrimPrefix line ''Host '')
         in parseLines sched w (Suc i) ls (config(host \<mapsto> [])))
      else if HasPrefix line ''IdentityFile '' then
        (case expandPath w (TrimSpace (TrimPrefix line ''IdentityFile '')) of
           Inl err \<Rightarrow> Inl err
         | Inr keyPath \<Rightarrow>
             (let host = getLastHost (sched (GetLastHost i) config) config
              in parseLines sched w (Suc i) ls (config(host \<mapsto> lookup config host @ [keyPath]))))
      else parseLines sched w (Suc i) ls config)"

definition parseConfig :: "sched \<Rightarrow> world \<Rightarrow> error + config" where
  "parseConfig sched w =
     (case getConfigPath w of Inl err \<Rightarrow> Inl err
      | Inr configPath \<Rightarrow>
          (case ReadFile w configPath of Inl err \<Rightarrow> Inl err
           | Inr content \<Rightarrow> parseLines sched w 0 (Split content newline) Map.empty))"

text \<open>How the loop reads a line: the two tests on the trimmed line, in the order of the
  source, and the host name and the key path it takes from the line.\<close>

definition hostLine :: "string \<Rightarrow> bool" where
  "hostLine l \<longleftrightarrow> HasPrefix (TrimSpace l) ''Host ''"

definition hostName :: "string \<Rightarrow> string" where
  "hostName l = TrimSpace (TrimPrefix (TrimSpace l) ''Host '')"

definition identityLine :: "string \<Rightarrow> bool" where
  "identityLine l \<longleftrightarrow> \<not> hostLine l \<and> HasPrefix (TrimSpace l) ''IdentityFile ''"

definition identityArg :: "string \<Rightarrow> string" where
  "identityArg l = TrimSpace (TrimPrefix (TrimSpace l) ''IdentityFile '')"

text \<open>\<open>writeConfig\<close>: the hosts are collected in the order \<open>ks\<close> of the \<open>range\<close> and sorted;
  the lines are appended host by host and joined by newlines.\<close>

definition hostBlock :: "config \<Rightarrow> string list \<Rightarrow> string \<Rightarrow> string list" where
  "hostBlock config lines host =
     foldl (\<lambda>lines keyPath. lines @ [''  IdentityFile '' @ keyPath])
       (lines @ [''Host '' @ host]) (lookup config host) @ [[]]"

definition configText :: "string list \<Rightarrow> config \<Rightarrow> string" where
  "configText ks config =
     (let hosts = sort (foldl (\<lambda>hosts host. hosts @ [host]) [] ks);
          lines = foldl (hostBlock config) [] hosts
      in Join lines [newline])"

definition writeConfig :: "string list \<Rightarrow> string \<Rightarrow> config \<Rightarrow> world \<Rightarrow> error + world" where
  "writeConfig ks configPath config w = WriteFile w configPath (configText ks config)"

section \<open>Mapping operations\<close>

text \<open>
  The loop of \<open>unmapKey\<close> and the inner loop of \<open>deleteKey\<close>: at the first index \<open>i\<close> whose
  entry equals the key, the list becomes \<open>append(keyPaths[:i], keyPaths[i+1:]...)\<close> and the
  loop ends. \<open>before\<close> is \<open>keyPaths[:i]\<close>; the result is \<open>None\<close> when no entry is equal.
\<close>

fun cutFirst :: "string \<Rightarrow> string list \<Rightarrow> string list \<Rightarrow> string list option" where
  "cutFirst key before [] = None"
| "cutFirst key before (keyPath # after) =
     (if keyPath = key then Some (before @ after)
      else cutFirst key (before @ [keyPath]) after)"

definition mapKey :: "sched \<Rightarrow> string \<Rightarrow> string \<Rightarrow> world \<Rightarrow> outcome" where
  "mapKey sched key host w =
     (case getConfigPath w of Inl err \<Rightarrow> Inl (err, w)
      | Inr configPath \<Rightarrow>
     (case parseConfig sched w of Inl err \<Rightarrow> Inl (err, w)
      | Inr config \<Rightarrow>
          if length (lookup config host) \<ge> 1 then
            Inr (Print w (''The host '' @ host @
              '' already has a key mapped. Please unmap the current key before mapping a new one.''
              @ [newline]))
          else
            (let config' = config(host \<mapsto> lookup config host @ [key]) in
             case writeConfig (sched WriteConfig config') configPath config' w of
               Inl err \<Rightarrow> Inl (err, w)
             | Inr w' \<Rightarrow>
                 Inr (Print w' (''Mapped key '' @ key @ '' to host '' @ host @ [newline])))))"

text \<open>The mapping in memory after the loop of \<open>unmapKey\<close>.\<close>

definition unmapEntry :: "string \<Rightarrow> string \<Rightarrow> config \<Rightarrow> config" where
  "unmapEntry key host config =
     (case cutFirst key [] (lookup config host) of
        None \<Rightarrow> config
      | Some keyPaths \<Rightarrow> config(host \<mapsto> keyPaths))"

definition unmapKey :: "sched \<Rightarrow> string \<Rightarrow> string \<Rightarrow> world \<Rightarrow> outcome" where
  "unmapKey sched key host w =
     (case getConfigPath w of Inl err \<Rightarrow> Inl (err, w)
      | Inr configPath \<Rightarrow>
     (case parseConfig sched w of Inl err \<Rightarrow> Inl (err, w)
      | Inr config \<Rightarrow>
          (let config' = unmapEntry key host config in
           case writeConfig (sched WriteConfig config') configPath config' w of
             Inl err \<Rightarrow> Inl (err, w)
           | Inr w' \<Rightarrow>
               Inr (Print w' (''Unmapped key '' @ key @ '' from host '' @ host @ [newline])))))"

section \<open>Key deletion\<close>

text \<open>The body of the loop of \<open>deleteKey\<close> over the hosts, for one host.\<close>

definition deleteStep :: "string \<Rightarrow> config \<Rightarrow> string \<Rightarrow> config" where
  "deleteStep fullKeyPath config host =
     (case cutFirst fullKeyPath [] (lookup config host) of
        None \<Rightarrow> config
      | Some keyPaths \<Rightarrow>
          if length keyPaths = 0 then config(host := None)
          else config(host \<mapsto> keyPaths))"

definition deleteKey :: "sched \<Rightarrow> string \<Rightarrow> world \<Rightarrow> outcome" where
  "deleteKey sched key w =
     (case getFullKeyPath w key of Inl err \<Rightarrow> Inl (err, w)
      | Inr fullKeyPath \<Rightarrow>
     (case Remove w fullKeyPath of Inl err \<Rightarrow> Inl (err, w)
      | Inr w1 \<Rightarrow>
     (case Remove w1 (fullKeyPath @ ''.pub'') of Inl err \<Rightarrow> Inl (err, w1)
      | Inr w2 \<Rightarrow>
     (case getConfigPath w2 of Inl err \<Rightarrow> Inl (err, w2)
      | Inr configPath \<Rightarrow>
     (case parseConfig sched w2 of Inl err \<Rightarrow> Inl (err, w2)
      | Inr config \<Rightarrow>
          (let config' = foldl (deleteStep fullKeyPath) config (sched DeleteKey config) in
           case writeConfig (sched WriteConfig config') configPath config' w2 of
             Inl err \<Rightarrow> Inl (err, w2)
           | Inr w3 \<Rightarrow> Inr (Print w3 (''Deleted key '' @ key @ [newline]))))))))"

section \<open>The key inventory\<close>

record sshKey =
  name :: string
  path :: string
  created :: nat
  comment :: string

definition getFileCreationTime :: "world \<Rightarrow> string \<Rightarrow> error + nat" where
  "getFileCreationTime w p =
     (case files w p of None \<Rightarrow> Inl (FileError p) | Some content \<Rightarrow> Inr (modTime w p))"

definition getKeyComment :: "world \<Rightarrow> string \<Rightarrow> error + string" where
  "getKeyComment w p =
     (case ReadFile w p of Inl err \<Rightarrow> Inl err
      | Inr content \<Rightarrow>
          Inr (case find (\<lambda>line. HasPrefix line commentLine) (Split content newline) of
                 None \<Rightarrow> []
               | Some line \<Rightarrow> TrimPrefix line commentLine))"

text \<open>The loop of \<open>getKeys\<close> over the entries of the directory: the name of an entry and
  whether it is a directory.\<close>

fun getKeysLoop :: "world \<Rightarrow> string \<Rightarrow> (string \<times> bool) list \<Rightarrow> sshKey list \<Rightarrow> error + sshKey list" where
  "getKeysLoop w sshPath [] keys = Inr keys"
| "getKeysLoop w sshPath ((fileName, isDir) # rest) keys =
     (if \<not> isDir \<and> HasSuffix fileName keyFileExt then
        (let keyName = TrimSuffix fileName keyFileExt;
             keyPath = JoinPath sshPath fileName
         in case getFileCreationTime w keyPath of Inl err \<Rightarrow> Inl err
            | Inr time \<Rightarrow>
           (case getKeyComment w keyPath of Inl err \<Rightarrow> Inl err
            | Inr text \<Rightarrow>
                getKeysLoop w sshPath rest
                  (keys @ [\<lparr>name = keyName, path = keyPath, created = time, comment = text\<rparr>])))
      else getKeysLoop w sshPath rest keys)"

definition getKeys :: "world \<Rightarrow> error + sshKey list" where
  "getKeys w =
     (case getSSHPath w of Inl err \<Rightarrow> Inl err
      | Inr sshPath \<Rightarrow>
          (case readDir w sshPath of None \<Rightarrow> Inl (FileError sshPath)
           | Some entries \<Rightarrow> getKeysLoop w sshPath entries []))"

section \<open>Usage analysis\<close>

text \<open>\<open>usedKeys\<close> of \<open>listUnusedKeys\<close> is a \<open>map[string]bool\<close>: an absent key reads as
  false.\<close>

definition usedKeys :: "string list \<Rightarrow> config \<Rightarrow> string \<Rightarrow> bool" where
  "usedKeys ks config =
     foldl (\<lambda>used host. foldl (\<lambda>used keyPath. used(Base keyPath := True)) used (lookup config host))
       (\<lambda>k. False) ks"

definition unusedKeys :: "string list \<Rightarrow> sshKey list \<Rightarrow> config \<Rightarrow> sshKey list" where
  "unusedKeys ks keys config =
     foldl (\<lambda>unused key. if \<not> usedKeys ks config (name key) then unused @ [key] else unused) [] keys"

text \<open>\<open>listUnusedKeys\<close>: the value is the list of keys the last loop prints, one record per
  key, in this order.\<close>

definition listUnusedKeys :: "sched \<Rightarrow> world \<Rightarrow> (error \<times> world) + sshKey list" where
  "listUnusedKeys sched w =
     (case getKeys w of Inl err \<Rightarrow> Inl (err, w)
      | Inr keys \<Rightarrow>
     (case parseConfig sched w of Inl err \<Rightarrow> Inl (err, w)
      | Inr config \<Rightarrow> Inr (unusedKeys (sched ListUnusedKeys config) keys config)))"

definition isKeyUsed :: "string list \<Rightarrow> sshKey \<Rightarrow> config \<Rightarrow> bool" where
  "isKeyUsed ks key config =
     list_ex (\<lambda>host.
       list_ex (\<lambda>keyPath. TrimSuffix (Base (path key)) ''.pub'' = Base keyPath) (lookup config host)) ks"

text \<open>\<open>findMultipleMappings\<close>: the first loop builds \<open>keyMappings\<close>, in the order \<open>ks\<close> of
  the hosts; the second goes through \<open>keyMappings\<close> in the order \<open>ks'\<close> of its keys.\<close>

definition keyMappings :: "string list \<Rightarrow> config \<Rightarrow> config" where
  "keyMappings ks config =
     foldl (\<lambda>m host. foldl (\<lambda>m keyPath. m(keyPath \<mapsto> lookup m keyPath @ [host])) m (lookup config host))
       Map.empty ks"

definition findMultipleMappings :: "string list \<Rightarrow> string list \<Rightarrow> config \<Rightarrow> config" where
  "findMultipleMappings ks ks' config =
     foldl (\<lambda>multiple key.
         (let hosts = lookup (keyMappings ks config) key
          in if length hosts > 1 then multiple(key \<mapsto> hosts) else multiple))
       Map.empty ks'"

section \<open>Specification-side notions\<close>

text \<open>What the specification says the writer emits for one host: the \<open>Host\<close> line, one
  indented \<open>IdentityFile\<close> line per key path in the order of the list, and a blank line.\<close>

definition blockLines :: "config \<Rightarrow> string \<Rightarrow> string list" where
  "blockLines config host =
     (''Host '' @ host) # map (\<lambda>keyPath. ''  IdentityFile '' @ keyPath) (lookup config host) @ [[]]"

text \<open>A key is used, by its base name, when the base name equals the last element of a key
  path stored under some host.\<close>

definition usedByConfig :: "config \<Rightarrow> string \<Rightarrow> bool" where
  "usedByConfig config base \<longleftrightarrow>
     (\<exists>host keyPath. keyPath \<in> set (lookup config host) \<and> Base keyPath = base)"

text \<open>A name of a directory entry: not empty, not \<open>.\<close> or \<open>..\<close>, without separator.\<close>

definition plainName :: "string \<Rightarrow> bool" where
  "plainName f \<longleftrightarrow> f \<noteq> [] \<and> f \<noteq> ''.'' \<and> f \<noteq> ''..'' \<and> CHR ''/'' \<notin> set f"

text \<open>
  What the round trip through the file asks of a mapping. A host name comes back from its
  \<open>Host\<close> line when it is not empty, has no white space at its ends and holds no newline. A
  key path comes back from its \<open>IdentityFile\<close> line when, besides, path expansion leaves it
  as it is (an absolute, clean path). \<open>declaredLast\<close> says of a run that \<open>getLastHost\<close>
  returns the host declared last: the writer declares the hosts in ascending order, so
  that host is the greatest key of the map read so far.
\<close>

definition stableHost :: "string \<Rightarrow> bool" where
  "stableHost h \<longleftrightarrow> h \<noteq> [] \<and> TrimSpace h = h \<and> newline \<notin> set h"

definition stablePath :: "world \<Rightarrow> string \<Rightarrow> bool" where
  "stablePath w p \<longleftrightarrow> p \<noteq> [] \<and> TrimSpace p = p \<and> newline \<notin> set p \<and> expandPath w p = Inr p"

definition stableConfig :: "world \<Rightarrow> config \<Rightarrow> bool" where
  "stableConfig w config \<longleftrightarrow>
     (\<forall>h ps. config h = Some ps \<longrightarrow> stableHost h \<and> (\<forall>p \<in> set ps. stablePath w p))"

definition declaredLast :: "sched \<Rightarrow> config \<Rightarrow> bool" where
  "declaredLast sched config \<longleftrightarrow>
     (\<forall>i c. c \<noteq> Map.empty \<and> dom c \<subseteq> dom config \<longrightarrow>
        getLastHost (sched (GetLastHost i) c) c = Max (dom c))"

section \<open>Example worlds\<close>

definition exampleWorld :: "(string \<rightharpoonup> string) \<Rightarrow> world" where
  "exampleWorld fs =
     \<lparr>currentUser = Some ''/home/u'', workingDir = Some ''/work'', files = fs,
      protected = {}, readDir = Map.empty, modTime = (\<lambda>p. 0), stdout = []\<rparr>"

text \<open>A runtime that happens to enumerate every map in ascending order of its keys.\<close>

definition ascendingSched :: sched where
  "ascendingSched s m = sorted_list_of_set (dom m)"

text \<open>A configuration file, edited by hand, that names one key twice under a host.\<close>

definition dupText :: string where
  "dupText = Join [''Host h'', ''  IdentityFile /home/u/.ssh/k'', ''  IdentityFile /home/u/.ssh/k'', []] [newline]"

text \<open>An SSH directory with the keys \<open>a\<close> and \<open>b\<close> and a configuration that maps the host
  \<open>h\<close> to the private key of \<open>a\<close>.\<close>

definition inventoryText :: string where
  "inventoryText = Join [''Host h'', ''  IdentityFile /home/u/.ssh/a'', []] [newline]"

definition inventoryWorld :: world where
  "inventoryWorld =
     (exampleWorld [''/home/u/.ssh/config'' \<mapsto> inventoryText,
                    ''/home/u/.ssh/a.pub'' \<mapsto> ''ssh-ed25519 AAAA'',
                    ''/home/u/.ssh/b.pub'' \<mapsto> ''ssh-ed25519 BBBB''])
       \<lparr>readDir := [''/home/u/.ssh'' \<mapsto>
          [(''a.pub'', False), (''b.pub'', False), (''config'', False)]]\<rparr>"

definition keyA :: sshKey where
  "keyA = \<lparr>name = ''a'', path = ''/home/u/.ssh/a.pub'', created = 0, comment = []\<rparr>"

definition keyB :: sshKey where
  "keyB = \<lparr>name = ''b'', path = ''/home/u/.ssh/b.pub'', created = 0, comment = []\<rparr>"

text \<open>The SSH directory of the file above, with the key pair \<open>k\<close>.\<close>

definition deleteWorld :: world where
  "deleteWorld = exampleWorld [''/home/u/.ssh/config'' \<mapsto> dupText,
     ''/home/u/.ssh/k'' \<mapsto> ''PRIVATE KEY'', ''/home/u/.ssh/k.pub'' \<mapsto> ''ssh-ed25519 KKKK'']"

text \<open>The example scenario of the specification.\<close>

definition scenarioText :: string where
  "scenarioText =
     Join [''Host foo'', ''  IdentityFile ~/.ssh/id_a'', [], ''Host bar'',
           ''  IdentityFile /abs/id_b'', []] [newline]"

text \<open>A configuration file whose first \<open>IdentityFile\<close> line comes before any \<open>Host\<close>
  line.\<close>

definition orphanText :: string where
  "orphanText = Join [''# keys'', ''IdentityFile /abs/id_b'', ''Host foo'', []] [newline]"

text \<open>What the writer emits for a host mapped to the relative path \<open>id_a\<close>, and for the
  two hosts of the scenario with their expanded paths.\<close>

definition relativeText :: string where
  "relativeText = Join [''Host h'', ''  IdentityFile id_a'', []] [newline]"

definition twoHostText :: string where
  "twoHostText =
     Join [''Host bar'', ''  IdentityFile /abs/id_b'', [],
           ''Host foo'', ''  IdentityFile /home/u/.ssh/id_a'', []] [newline]"

section \<open>The writer\<close>

lemma foldl_snoc: "foldl (\<lambda>acc x. acc @ [f x]) acc xs = acc @ map f xs"
  by (induction xs arbitrary: acc) auto

lemma hostBlock_append: "hostBlock config lines host = lines @ blockLines config host"
  by (simp add: hostBlock_def blockLines_def foldl_snoc)

lemma foldl_hostBlock:
  "foldl (hostBlock config) lines hosts = lines @ concat (map (blockLines config) hosts)"
  by (induction hosts arbitrary: lines) (auto simp: hostBlock_append)

lemma sort_rangeOrder: "rangeOrder config ks \<Longrightarrow> sort ks = sorted_list_of_set (dom config)"
  using sorted_list_of_set_sort_remdups [of ks] by (auto simp: rangeOrder_def distinct_remdups_id)

lemma configText_eq:
  "rangeOrder config ks \<Longrightarrow>
   configText ks config =
     Join (concat (map (blockLines config) (sorted_list_of_set (dom config)))) [newline]"
  using foldl_snoc [of "\<lambda>x. x" "[]" ks]
  by (simp add: configText_def foldl_hostBlock sort_rangeOrder)

lemma rangeOrder_finite: "rangeOrder config ks \<Longrightarrow> finite (dom config)"
  by (metis rangeOrder_def List.finite_set)

text \<open>
  Claim C3. Whatever order the runtime enumerates the map in, \<open>writeConfig\<close> replaces the
  whole content of the file by the lines of the host blocks, joined by newlines, the hosts
  taken in strictly ascending order of their names as byte strings: each block is the
  \<open>Host\<close> line, the \<open>IdentityFile\<close> lines of the host's key paths in the order of the list,
  and a blank line. No other file changes. (When the system refuses the write, the command
  fails and nothing is written.)
\<close>

theorem writeConfig_sorted_blocks:
  assumes "rangeOrder config ks"
  shows "writeConfig ks configPath config w =
           (if configPath \<in> protected w then Inl (FileError configPath)
            else Inr (w\<lparr>files := (files w)(configPath \<mapsto>
              Join (concat (map (blockLines config) (sorted_list_of_set (dom config))))
                [newline])\<rparr>))
         \<and> sorted_wrt (<) (sorted_list_of_set (dom config))
         \<and> set (sorted_list_of_set (dom config)) = dom config"
proof -
  have fin: "finite (dom config)"
    using assms by (rule rangeOrder_finite)
  have "configText ks config =
          Join (concat (map (blockLines config) (sorted_list_of_set (dom config)))) [newline]"
    using assms by (rule configText_eq)
  then have "writeConfig ks configPath config w =
           (if configPath \<in> protected w then Inl (FileError configPath)
            else Inr (w\<lparr>files := (files w)(configPath \<mapsto>
              Join (concat (map (blockLines config) (sorted_list_of_set (dom config))))
                [newline])\<rparr>))"
    by (simp add: writeConfig_def WriteFile_def)
  moreover have "sorted_wrt (<) (sorted_list_of_set (dom config))"
    by (simp add: strict_sorted_list_of_set)
  moreover have "set (sorted_list_of_set (dom config)) = dom config"
    using fin by simp
  ultimately show ?thesis by blast
qed

theorem writeConfig_sorted_blocks_witness:
  "rangeOrder [''foo'' \<mapsto> [''/k/a'', ''/k/b''], ''bar'' \<mapsto> []] [''foo'', ''bar'']
   \<and> writeConfig [''foo'', ''bar''] ''/home/u/.ssh/config''
       [''foo'' \<mapsto> [''/k/a'', ''/k/b''], ''bar'' \<mapsto> []]
       (exampleWorld [''/home/u/.ssh/config'' \<mapsto> ''# old'']) =
     Inr (exampleWorld [''/home/u/.ssh/config'' \<mapsto>
       Join [''Host bar'', [], ''Host foo'', ''  IdentityFile /k/a'', ''  IdentityFile /k/b'', []]
         [newline]])"
proof -
  have ord: "rangeOrder [''foo'' \<mapsto> [''/k/a'', ''/k/b''], ''bar'' \<mapsto> []] [''foo'', ''bar'']"
    by (auto simp: rangeOrder_def)
  have hosts: "sorted_list_of_set {''foo'', ''bar''} = [''bar'', ''foo'']"
    by simp
  show ?thesis
    using ord writeConfig_sorted_blocks [OF ord, of "''/home/u/.ssh/config''"
        "exampleWorld [''/home/u/.ssh/config'' \<mapsto> ''# old'']"]
    by (simp add: exampleWorld_def blockLines_def lookup_def hosts)
qed

section \<open>Running the examples\<close>

lemma validSched_ascending: "validSched ascendingSched"
  by (simp add: validSched_def rangeOrder_def ascendingSched_def)

lemma exampleConfigPath: "getConfigPath (exampleWorld fs) = Inr ''/home/u/.ssh/config''"
proof -
  have "JoinPath ''/home/u'' ''.ssh'' = ''/home/u/.ssh''"
    "JoinPath ''/home/u/.ssh'' ''config'' = ''/home/u/.ssh/config''"
    by code_simp+
  then show ?thesis
    by (simp add: getConfigPath_def getSSHPath_def exampleWorld_def sshDir_def configFile_def)
qed

lemma parse_dupText:
  "fs ''/home/u/.ssh/config'' = Some dupText \<Longrightarrow> parseConfig ascendingSched (exampleWorld fs)
     = Inr [''h'' \<mapsto> [''/home/u/.ssh/k'', ''/home/u/.ssh/k'']]"
proof -
  assume fs: "fs ''/home/u/.ssh/config'' = Some dupText"
  have lines: "Split dupText newline =
      [''Host h'', ''  IdentityFile /home/u/.ssh/k'', ''  IdentityFile /home/u/.ssh/k'', []]"
    by code_simp
  have trims: "TrimSpace ''Host h'' = ''Host h''" "TrimSpace ''h'' = ''h''"
    "TrimSpace ''  IdentityFile /home/u/.ssh/k'' = ''IdentityFile /home/u/.ssh/k''"
    "TrimSpace ''/home/u/.ssh/k'' = ''/home/u/.ssh/k''" "TrimSpace [] = []"
    by code_simp+
  have clean: "Clean ''/home/u/.ssh/k'' = ''/home/u/.ssh/k''"
    by code_simp
  have files: "files (exampleWorld fs) = fs" by (simp add: exampleWorld_def)
  show ?thesis
    by (simp add: parseConfig_def exampleConfigPath ReadFile_def files fs lines trims clean
        HasPrefix_def TrimPrefix_def expandPath_def Abs_def IsAbs_def getLastHost_def
        ascendingSched_def lookup_def)
qed

section \<open>Mapping operations: map and unmap\<close>

lemma cutFirst_remove1:
  "cutFirst key before xs = (if key \<in> set xs then Some (before @ remove1 key xs) else None)"
  by (induction xs arbitrary: before) auto

lemma parseLines_finite:
  "parseLines sched w i ls c = Inr c' \<Longrightarrow> finite (dom c) \<Longrightarrow> finite (dom c')"
  by (induction ls arbitrary: i c) (auto simp: Let_def split: if_splits sum.splits)

lemma parseConfig_finite: "parseConfig sched w = Inr c \<Longrightarrow> finite (dom c)"
  by (auto simp: parseConfig_def split: sum.splits dest: parseLines_finite)

lemma unmapEntry_dom: "finite (dom c) \<Longrightarrow> finite (dom (unmapEntry key host c))"
  by (simp add: unmapEntry_def split: option.splits)

text \<open>
  Claim C4. \<open>mapKey\<close>, on the mapping \<open>config\<close> parsed from the file: when the host already
  has a key, the run ends normally, having printed the notice and nothing else changed (no
  file is written); otherwise the key string, whatever it is, becomes the host's key list
  and the file is rewritten from the new mapping (the run fails only when the system
  refuses the write).
\<close>

theorem mapKey_refuses_second_key:
  assumes "validSched sched"
    and "getConfigPath w = Inr configPath"
    and "parseConfig sched w = Inr config"
  shows "(lookup config host \<noteq> [] \<longrightarrow>
            mapKey sched key host w =
              Inr (Print w (''The host '' @ host @
                '' already has a key mapped. Please unmap the current key before mapping a new one.''
                @ [newline])))
       \<and> (lookup config host = [] \<longrightarrow>
            mapKey sched key host w =
              (if configPath \<in> protected w then Inl (FileError configPath, w)
               else Inr (Print
                 (w\<lparr>files := (files w)(configPath \<mapsto>
                     Join (concat (map (blockLines (config(host \<mapsto> [key])))
                       (sorted_list_of_set (dom (config(host \<mapsto> [key])))))) [newline])\<rparr>)
                 (''Mapped key '' @ key @ '' to host '' @ host @ [newline]))))"
proof -
  let ?c = "config(host \<mapsto> [key])"
  have taken: "lookup config host \<noteq> [] \<longrightarrow>
            mapKey sched key host w =
              Inr (Print w (''The host '' @ host @
                '' already has a key mapped. Please unmap the current key before mapping a new one.''
                @ [newline]))"
    using assms(2,3) by (cases "lookup config host") (simp_all add: mapKey_def)
  have "finite (dom ?c)"
    using parseConfig_finite [OF assms(3)] by simp
  with assms(1) have "rangeOrder ?c (sched WriteConfig ?c)"
    by (simp add: validSched_def)
  then have "configText (sched WriteConfig ?c) ?c =
      Join (concat (map (blockLines ?c) (sorted_list_of_set (dom ?c)))) [newline]"
    by (rule configText_eq)
  then have free: "lookup config host = [] \<longrightarrow>
            mapKey sched key host w =
              (if configPath \<in> protected w then Inl (FileError configPath, w)
               else Inr (Print
                 (w\<lparr>files := (files w)(configPath \<mapsto>
                     Join (concat (map (blockLines ?c) (sorted_list_of_set (dom ?c)))) [newline])\<rparr>)
                 (''Mapped key '' @ key @ '' to host '' @ host @ [newline])))"
    using assms(2,3) by (simp add: mapKey_def writeConfig_def WriteFile_def Let_def)
  from taken free show ?thesis by blast
qed

theorem mapKey_refuses_second_key_witness:
  "validSched ascendingSched
   \<and> getConfigPath (exampleWorld [''/home/u/.ssh/config'' \<mapsto> dupText]) = Inr ''/home/u/.ssh/config''
   \<and> parseConfig ascendingSched (exampleWorld [''/home/u/.ssh/config'' \<mapsto> dupText]) =
       Inr [''h'' \<mapsto> [''/home/u/.ssh/k'', ''/home/u/.ssh/k'']]
   \<and> mapKey ascendingSched ''id_x'' ''h'' (exampleWorld [''/home/u/.ssh/config'' \<mapsto> dupText]) =
       Inr (Print (exampleWorld [''/home/u/.ssh/config'' \<mapsto> dupText])
         (''The host h already has a key mapped. Please unmap the current key before mapping a new one.''
           @ [newline]))
   \<and> mapKey ascendingSched ''id_x'' ''g'' (exampleWorld [''/home/u/.ssh/config'' \<mapsto> dupText]) =
       Inr (Print (exampleWorld [''/home/u/.ssh/config'' \<mapsto>
              Join [''Host g'', ''  IdentityFile id_x'', [],
                    ''Host h'', ''  IdentityFile /home/u/.ssh/k'', ''  IdentityFile /home/u/.ssh/k'', []]
                [newline]])
            (''Mapped key id_x to host g'' @ [newline]))"
proof -
  let ?w = "exampleWorld [''/home/u/.ssh/config'' \<mapsto> dupText]"
  let ?c = "[''h'' \<mapsto> [''/home/u/.ssh/k'', ''/home/u/.ssh/k'']]"
  have p: "parseConfig ascendingSched ?w = Inr ?c"
    by (rule parse_dupText) simp
  have hosts: "sorted_list_of_set {''g'', ''h''} = [''g'', ''h'']"
    by simp
  show ?thesis
    using validSched_ascending exampleConfigPath p
      mapKey_refuses_second_key [OF validSched_ascending exampleConfigPath p, of "''h''" "''id_x''"]
      mapKey_refuses_second_key [OF validSched_ascending exampleConfigPath p, of "''g''" "''id_x''"]
    by (simp add: blockLines_def lookup_def exampleWorld_def Print_def hosts)
qed


text \<open>
  Claim C5. \<open>unmapKey\<close>, on the mapping \<open>config\<close> parsed from the file: the first entry of the
  host's list equal to the key string is removed and the entries after it, equal ones
  included, stay; the lists of the other hosts are unchanged; with no equal entry the
  mapping is the parsed one. In every case the file is rewritten from the resulting
  mapping and the success message is printed (the run fails only when the system refuses
  the write).
\<close>

theorem unmapKey_removes_first:
  assumes "validSched sched"
    and "getConfigPath w = Inr configPath"
    and "parseConfig sched w = Inr config"
  shows "(\<forall>before after. lookup config host = before @ key # after \<and> key \<notin> set before \<longrightarrow>
            lookup (unmapEntry key host config) host = before @ after)
       \<and> (\<forall>other. other \<noteq> host \<longrightarrow> unmapEntry key host config other = config other)
       \<and> (key \<notin> set (lookup config host) \<longrightarrow> unmapEntry key host config = config)
       \<and> unmapKey sched key host w =
           (if configPath \<in> protected w then Inl (FileError configPath, w)
            else Inr (Print
              (w\<lparr>files := (files w)(configPath \<mapsto>
                  Join (concat (map (blockLines (unmapEntry key host config))
                    (sorted_list_of_set (dom (unmapEntry key host config))))) [newline])\<rparr>)
              (''Unmapped key '' @ key @ '' from host '' @ host @ [newline])))"
proof -
  let ?c = "unmapEntry key host config"
  have first: "\<forall>before after. lookup config host = before @ key # after \<and> key \<notin> set before \<longrightarrow>
            lookup ?c host = before @ after"
    by (auto simp: unmapEntry_def cutFirst_remove1 remove1_append lookup_def)
  have others: "\<forall>other. other \<noteq> host \<longrightarrow> ?c other = config other"
    by (simp add: unmapEntry_def split: option.splits)
  have absent: "key \<notin> set (lookup config host) \<longrightarrow> ?c = config"
    by (simp add: unmapEntry_def cutFirst_remove1)
  have "finite (dom ?c)"
    using assms(3) by (intro unmapEntry_dom parseConfig_finite)
  with assms(1) have "rangeOrder ?c (sched WriteConfig ?c)"
    by (simp add: validSched_def)
  then have "configText (sched WriteConfig ?c) ?c =
      Join (concat (map (blockLines ?c) (sorted_list_of_set (dom ?c)))) [newline]"
    by (rule configText_eq)
  then have run: "unmapKey sched key host w =
           (if configPath \<in> protected w then Inl (FileError configPath, w)
            else Inr (Print
              (w\<lparr>files := (files w)(configPath \<mapsto>
                  Join (concat (map (blockLines ?c) (sorted_list_of_set (dom ?c)))) [newline])\<rparr>)
              (''Unmapped key '' @ key @ '' from host '' @ host @ [newline])))"
    using assms(2,3) by (simp add: unmapKey_def writeConfig_def WriteFile_def Let_def)
  from first others absent run show ?thesis by blast
qed


theorem unmapKey_removes_first_witness:
  "validSched ascendingSched
   \<and> getConfigPath (exampleWorld [''/home/u/.ssh/config'' \<mapsto> dupText]) = Inr ''/home/u/.ssh/config''
   \<and> parseConfig ascendingSched (exampleWorld [''/home/u/.ssh/config'' \<mapsto> dupText]) =
       Inr [''h'' \<mapsto> [''/home/u/.ssh/k'', ''/home/u/.ssh/k'']]
   \<and> lookup (unmapEntry ''/home/u/.ssh/k'' ''h'' [''h'' \<mapsto> [''/home/u/.ssh/k'', ''/home/u/.ssh/k'']]) ''h''
       = [''/home/u/.ssh/k'']
   \<and> unmapKey ascendingSched ''/home/u/.ssh/k'' ''h'' (exampleWorld [''/home/u/.ssh/config'' \<mapsto> dupText]) =
       Inr (Print (exampleWorld [''/home/u/.ssh/config'' \<mapsto>
              Join [''Host h'', ''  IdentityFile /home/u/.ssh/k'', []] [newline]])
            (''Unmapped key /home/u/.ssh/k from host h'' @ [newline]))"
proof -
  let ?w = "exampleWorld [''/home/u/.ssh/config'' \<mapsto> dupText]"
  let ?c = "[''h'' \<mapsto> [''/home/u/.ssh/k'', ''/home/u/.ssh/k'']]"
  have p: "parseConfig ascendingSched ?w = Inr ?c"
    by (rule parse_dupText) simp
  have u: "unmapEntry ''/home/u/.ssh/k'' ''h'' ?c = [''h'' \<mapsto> [''/home/u/.ssh/k'']]"
    by (simp add: unmapEntry_def lookup_def)
  show ?thesis
    using validSched_ascending exampleConfigPath p
      unmapKey_removes_first [OF validSched_ascending exampleConfigPath p,
        of "''h''" "''/home/u/.ssh/k''"]
    by (simp add: u blockLines_def lookup_def exampleWorld_def Print_def)
qed


section \<open>Facts about paths\<close>

lemma Split_nonempty: "Split s d \<noteq> []"
  by (induction s) (auto split: list.splits)

lemma Split_no_sep: "d \<notin> set s \<Longrightarrow> Split s d = [s]"
  by (induction s) auto

lemma Split_append: "Split (a @ d # b) d = Split a d @ Split b d"
proof (induction a)
  case Nil
  show ?case by simp
next
  case (Cons c a)
  obtain x xs where "Split a d = x # xs"
    using Split_nonempty [of a d] by (cases "Split a d") auto
  with Cons show ?case by simp
qed

lemma Join_snoc: "Join (xs @ [x]) sep = (if xs = [] then x else Join xs sep @ sep @ x)"
  by (induction xs sep rule: Join.induct) auto

lemma Base_last_element:
  assumes "f \<noteq> []" and "CHR ''/'' \<notin> set f" and "pre = [] \<or> last pre = CHR ''/''"
  shows "Base (pre @ f) = f"
proof -
  obtain c cs where rf: "rev f = c # cs"
    using assms(1) by (cases "rev f") auto
  then have "c \<in> set f" by (metis list.set_intros(1) set_rev)
  with assms(2) have c: "c \<noteq> CHR ''/''" by auto
  have drop: "dropWhile (\<lambda>c. c = CHR ''/'') (rev f @ rev pre) = rev f @ rev pre"
    using rf c by simp
  have pre: "takeWhile (\<lambda>c. c \<noteq> CHR ''/'') (rev pre) = []"
  proof (cases "rev pre")
    case Nil
    then show ?thesis by simp
  next
    case (Cons y ys)
    then have "pre \<noteq> []" by auto
    then have "last pre = hd (rev pre)" by (simp add: hd_rev)
    with assms(3) Cons \<open>pre \<noteq> []\<close> have "y = CHR ''/''" by simp
    with Cons show ?thesis by simp
  qed
  have "\<And>x. x \<in> set (rev f) \<Longrightarrow> x \<noteq> CHR ''/''"
    using assms(2) by auto
  then have "takeWhile (\<lambda>c. c \<noteq> CHR ''/'') (rev f @ rev pre)
      = rev f @ takeWhile (\<lambda>c. c \<noteq> CHR ''/'') (rev pre)"
    by (rule takeWhile_append2)
  with pre have take: "takeWhile (\<lambda>c. c \<noteq> CHR ''/'') (rev f @ rev pre) = rev f"
    by simp
  have "Base (pre @ f) =
     (let q = rev (dropWhile (\<lambda>c. c = CHR ''/'') (rev f @ rev pre));
          e = rev (takeWhile (\<lambda>c. c \<noteq> CHR ''/'') (rev q))
      in if e = [] then ''/'' else e)"
    using assms(1) by (simp add: Base_def)
  also have "\<dots> = f"
    unfolding drop Let_def using assms(1) by (simp add: take)
  finally show ?thesis .
qed

lemma Clean_last_element:
  assumes "plainName f"
  shows "\<exists>pre. Clean (a @ ''/'' @ f) = pre @ f \<and> (pre = [] \<or> last pre = CHR ''/'')"
proof -
  define r where "r = IsAbs (a @ ''/'' @ f)"
  define out where "out = foldl (cleanStep r) [] (Split a CHR ''/'')"
  define j where "j = (if out = [] then [] else Join out ''/'' @ ''/'')"
  have f: "f \<noteq> []" "f \<noteq> ''.''" "f \<noteq> ''..''" "CHR ''/'' \<notin> set f"
    using assms by (simp_all add: plainName_def)
  have "Split (a @ CHR ''/'' # f) CHR ''/'' = Split a CHR ''/'' @ Split f CHR ''/''"
    by (rule Split_append)
  then have sp: "Split (a @ ''/'' @ f) CHR ''/'' = Split a CHR ''/'' @ [f]"
    using f(4) by (simp add: Split_no_sep)
  have step: "cleanStep r out f = out @ [f]"
    using f by (simp add: cleanStep_def)
  have fold: "foldl (cleanStep r) [] (Split (a @ ''/'' @ f) CHR ''/'') = out @ [f]"
    unfolding sp by (simp add: out_def [symmetric] step)
  have js: "Join (out @ [f]) ''/'' = j @ f"
    by (simp add: Join_snoc j_def)
  have jl: "j = [] \<or> last j = CHR ''/''"
    by (simp add: j_def)
  have cl: "Clean (a @ ''/'' @ f) = (if r then ''/'' @ j @ f else j @ f)"
    unfolding Clean_def Let_def r_def [symmetric] fold js by simp
  show ?thesis
  proof (cases r)
    case True
    have "last (''/'' @ j) = CHR ''/''"
      using jl by (cases "j = []") simp_all
    moreover have "Clean (a @ ''/'' @ f) = (''/'' @ j) @ f"
      using True cl by simp
    ultimately show ?thesis by blast
  next
    case False
    then have "Clean (a @ ''/'' @ f) = j @ f"
      using cl by simp
    with jl show ?thesis by blast
  qed
qed

lemma Base_JoinPath:
  assumes "plainName f"
  shows "Base (JoinPath a f) = f"
proof (cases "a = []")
  case True
  have f: "f \<noteq> []" "f \<noteq> ''.''" "f \<noteq> ''..''" "CHR ''/'' \<notin> set f"
    using assms by (simp_all add: plainName_def)
  have sp: "Split f CHR ''/'' = [f]"
    using f(4) by (rule Split_no_sep)
  have abs: "\<not> IsAbs f"
    using f(1,4) by (cases f) (simp_all add: IsAbs_def HasPrefix_def)
  have "Clean f = f"
    unfolding Clean_def Let_def sp using abs f by (simp add: cleanStep_def)
  moreover have "Base ([] @ f) = f"
    using f(1,4) by (intro Base_last_element) simp_all
  ultimately show ?thesis
    using True f(1) by (simp add: JoinPath_def)
next
  case False
  have f: "f \<noteq> []" "CHR ''/'' \<notin> set f"
    using assms by (simp_all add: plainName_def)
  obtain pre where pre: "Clean (a @ ''/'' @ f) = pre @ f" "pre = [] \<or> last pre = CHR ''/''"
    using Clean_last_element [OF assms] by blast
  have "Base (pre @ f) = f"
    using f pre(2) by (rule Base_last_element)
  then show ?thesis
    using False pre(1) by (simp add: JoinPath_def)
qed

section \<open>Usage analysis: unused keys\<close>

lemma usedKeys_inner:
  "foldl (\<lambda>used keyPath. used(Base keyPath := True)) used keyPaths b
     \<longleftrightarrow> used b \<or> (\<exists>keyPath \<in> set keyPaths. Base keyPath = b)"
  by (induction keyPaths arbitrary: used) auto

lemma usedKeys_outer:
  "foldl (\<lambda>used host. foldl (\<lambda>used keyPath. used(Base keyPath := True)) used (lookup config host))
       used ks b
     \<longleftrightarrow> used b \<or> (\<exists>host \<in> set ks. \<exists>keyPath \<in> set (lookup config host). Base keyPath = b)"
  by (induction ks arbitrary: used) (auto simp: usedKeys_inner)

lemma lookup_dom: "keyPath \<in> set (lookup config host) \<Longrightarrow> host \<in> dom config"
  by (cases "config host") (auto simp: lookup_def)

lemma usedKeys_iff:
  "rangeOrder config ks \<Longrightarrow> usedKeys ks config b \<longleftrightarrow> usedByConfig config b"
proof -
  assume "rangeOrder config ks"
  then have ks: "set ks = dom config" by (simp add: rangeOrder_def)
  show ?thesis
    unfolding usedKeys_def usedKeys_outer usedByConfig_def ks
    by (metis lookup_dom)
qed

lemma isKeyUsed_iff:
  "rangeOrder config ks \<Longrightarrow>
   isKeyUsed ks key config \<longleftrightarrow> usedByConfig config (TrimSuffix (Base (path key)) ''.pub'')"
proof -
  assume "rangeOrder config ks"
  then have ks: "set ks = dom config" by (simp add: rangeOrder_def)
  show ?thesis
    unfolding isKeyUsed_def list_ex_iff usedByConfig_def ks
    by (metis lookup_dom)
qed

lemma unusedKeys_foldl:
  "foldl (\<lambda>unused key. if \<not> P (name key) then unused @ [key] else unused) acc keys
     = acc @ filter (\<lambda>key. \<not> P (name key)) keys"
  by (induction keys arbitrary: acc) auto

lemma unusedKeys_filter:
  "unusedKeys ks keys config = filter (\<lambda>key. \<not> usedKeys ks config (name key)) keys"
  by (simp add: unusedKeys_def unusedKeys_foldl)


lemma plainName_pub:
  assumes "HasSuffix fileName keyFileExt" and "CHR ''/'' \<notin> set fileName"
  shows "plainName fileName"
proof -
  obtain pre where "fileName = pre @ ''.pub''"
    using assms(1) by (auto simp: HasSuffix_def keyFileExt_def suffix_def)
  then have len: "length fileName \<ge> 4" by simp
  have "fileName \<noteq> []" "fileName \<noteq> ''.''" "fileName \<noteq> ''..''"
  proof -
    show "fileName \<noteq> []" using len by (intro notI) simp
    show "fileName \<noteq> ''.''" using len by (intro notI) simp
    show "fileName \<noteq> ''..''" using len by (intro notI) simp
  qed
  with assms(2) show ?thesis by (simp add: plainName_def)
qed

lemma getKeysLoop_keys:
  "getKeysLoop w sshPath entries keys0 = Inr keys \<Longrightarrow> key \<in> set keys \<Longrightarrow>
   key \<in> set keys0 \<or>
   (\<exists>fileName isDir. (fileName, isDir) \<in> set entries \<and> HasSuffix fileName keyFileExt
      \<and> name key = TrimSuffix fileName keyFileExt \<and> path key = JoinPath sshPath fileName)"
proof (induction entries arbitrary: keys0)
  case Nil
  then show ?case by simp
next
  case (Cons e entries)
  obtain fileName isDir where e: "e = (fileName, isDir)" by (cases e)
  show ?case
  proof (cases "\<not> isDir \<and> HasSuffix fileName keyFileExt")
    case False
    with Cons.prems(1) e have "getKeysLoop w sshPath entries keys0 = Inr keys" by auto
    from Cons.IH [OF this Cons.prems(2)] show ?thesis by auto
  next
    case True
    define mk where "mk tm cmt = \<lparr>name = TrimSuffix fileName keyFileExt,
      path = JoinPath sshPath fileName, created = tm, comment = cmt\<rparr>" for tm cmt
    have sel: "name (mk tm cmt) = TrimSuffix fileName keyFileExt"
      "path (mk tm cmt) = JoinPath sshPath fileName" for tm cmt
      by (simp_all add: mk_def)
    have "\<exists>tm cmt. getKeysLoop w sshPath entries (keys0 @ [mk tm cmt]) = Inr keys"
    proof (cases "getFileCreationTime w (JoinPath sshPath fileName)")
      case (Inl err)
      with Cons.prems(1) e True show ?thesis by (simp add: Let_def)
    next
      case tm: (Inr tm)
      show ?thesis
      proof (cases "getKeyComment w (JoinPath sshPath fileName)")
        case (Inl err)
        with Cons.prems(1) e True tm show ?thesis by (simp add: Let_def)
      next
        case (Inr cmt)
        with Cons.prems(1) e True tm
        have "getKeysLoop w sshPath entries (keys0 @ [mk tm cmt]) = Inr keys"
          by (simp add: Let_def mk_def)
        then show ?thesis by blast
      qed
    qed
    then obtain tm cmt where
      "getKeysLoop w sshPath entries (keys0 @ [mk tm cmt]) = Inr keys"
      by blast
    from Cons.IH [OF this Cons.prems(2)]
    consider "key \<in> set keys0" | "key = mk tm cmt"
      | "\<exists>fileName isDir. (fileName, isDir) \<in> set entries \<and> HasSuffix fileName keyFileExt
          \<and> name key = TrimSuffix fileName keyFileExt \<and> path key = JoinPath sshPath fileName"
      by auto
    then show ?thesis
    proof cases
      case 1
      then show ?thesis by simp
    next
      case 2
      have "(fileName, isDir) \<in> set (e # entries)" using e by simp
      with 2 sel True show ?thesis by blast
    next
      case 3
      then obtain f d where "(f, d) \<in> set entries" "HasSuffix f keyFileExt"
        "name key = TrimSuffix f keyFileExt" "path key = JoinPath sshPath f"
        by blast
      then have "(f, d) \<in> set (e # entries)" by simp
      with \<open>HasSuffix f keyFileExt\<close> \<open>name key = TrimSuffix f keyFileExt\<close>
        \<open>path key = JoinPath sshPath f\<close> show ?thesis by blast
    qed
  qed
qed

lemma getKeys_keys:
  assumes "properListing w" and "getKeys w = Inr keys" and "key \<in> set keys"
  shows "\<exists>sshPath fileName. plainName fileName \<and> HasSuffix fileName keyFileExt
      \<and> name key = TrimSuffix fileName keyFileExt \<and> path key = JoinPath sshPath fileName"
proof -
  from assms(2) obtain sshPath entries where
    dir: "readDir w sshPath = Some entries" and
    loop: "getKeysLoop w sshPath entries [] = Inr keys"
    by (auto simp: getKeys_def split: sum.splits option.splits)
  from getKeysLoop_keys [OF loop assms(3)] obtain fileName isDir where
    f: "(fileName, isDir) \<in> set entries" "HasSuffix fileName keyFileExt"
       "name key = TrimSuffix fileName keyFileExt" "path key = JoinPath sshPath fileName"
    by auto
  from assms(1) dir f(1) have "CHR ''/'' \<notin> set fileName"
    unfolding properListing_def by blast
  with f(2) have "plainName fileName" by (rule plainName_pub)
  with f show ?thesis by blast
qed

lemma getKeys_name_path:
  assumes "properListing w" and "getKeys w = Inr keys" and "key \<in> set keys"
  shows "TrimSuffix (Base (path key)) ''.pub'' = name key"
proof -
  from getKeys_keys [OF assms] obtain sshPath fileName where
    "plainName fileName" "name key = TrimSuffix fileName keyFileExt"
    "path key = JoinPath sshPath fileName"
    by blast
  then show ?thesis by (simp add: Base_JoinPath keyFileExt_def)
qed

lemma getKeys_names:
  assumes "getKeys w = Inr keys" and "key \<in> set keys"
  shows "\<exists>fileName. HasSuffix fileName ''.pub'' \<and> name key = TrimSuffix fileName ''.pub''"
proof -
  from assms(1) obtain sshPath entries where
    loop: "getKeysLoop w sshPath entries [] = Inr keys"
    by (auto simp: getKeys_def split: sum.splits option.splits)
  from getKeysLoop_keys [OF loop assms(2)] show ?thesis
    by (auto simp: keyFileExt_def)
qed

lemma inventory_sshPath: "getSSHPath inventoryWorld = Inr ''/home/u/.ssh''"
proof -
  have "JoinPath ''/home/u'' ''.ssh'' = ''/home/u/.ssh''" by code_simp
  then show ?thesis
    by (simp add: getSSHPath_def inventoryWorld_def exampleWorld_def sshDir_def)
qed

lemma inventory_configPath: "getConfigPath inventoryWorld = Inr ''/home/u/.ssh/config''"
proof -
  have "JoinPath ''/home/u/.ssh'' ''config'' = ''/home/u/.ssh/config''" by code_simp
  then show ?thesis
    by (simp add: getConfigPath_def inventory_sshPath configFile_def)
qed

lemma getKeys_inventory: "getKeys inventoryWorld = Inr [keyA, keyB]"
proof -
  have joins: "JoinPath ''/home/u/.ssh'' ''a.pub'' = ''/home/u/.ssh/a.pub''"
    "JoinPath ''/home/u/.ssh'' ''b.pub'' = ''/home/u/.ssh/b.pub''"
    by code_simp+
  have names: "HasSuffix ''a.pub'' keyFileExt" "HasSuffix ''b.pub'' keyFileExt"
    "\<not> HasSuffix ''config'' keyFileExt"
    "TrimSuffix ''a.pub'' keyFileExt = ''a''" "TrimSuffix ''b.pub'' keyFileExt = ''b''"
    by code_simp+
  have comments:
    "(case find (\<lambda>line. HasPrefix line commentLine) (Split ''ssh-ed25519 AAAA'' newline) of
        None \<Rightarrow> [] | Some line \<Rightarrow> TrimPrefix line commentLine) = []"
    "(case find (\<lambda>line. HasPrefix line commentLine) (Split ''ssh-ed25519 BBBB'' newline) of
        None \<Rightarrow> [] | Some line \<Rightarrow> TrimPrefix line commentLine) = []"
    by code_simp+
  have dir: "readDir inventoryWorld ''/home/u/.ssh'' =
      Some [(''a.pub'', False), (''b.pub'', False), (''config'', False)]"
    by (simp add: inventoryWorld_def)
  have fs: "files inventoryWorld ''/home/u/.ssh/a.pub'' = Some ''ssh-ed25519 AAAA''"
    "files inventoryWorld ''/home/u/.ssh/b.pub'' = Some ''ssh-ed25519 BBBB''"
    by (simp_all add: inventoryWorld_def exampleWorld_def)
  have mt: "modTime inventoryWorld p = 0" for p
    by (simp add: inventoryWorld_def exampleWorld_def)
  have time: "getFileCreationTime inventoryWorld ''/home/u/.ssh/a.pub'' = Inr 0"
    "getFileCreationTime inventoryWorld ''/home/u/.ssh/b.pub'' = Inr 0"
    by (simp_all only: getFileCreationTime_def fs mt option.case)
  have cmt: "getKeyComment inventoryWorld ''/home/u/.ssh/a.pub'' = Inr []"
    "getKeyComment inventoryWorld ''/home/u/.ssh/b.pub'' = Inr []"
    by (simp_all only: getKeyComment_def ReadFile_def fs option.case sum.case comments)
  have loop: "getKeysLoop inventoryWorld ''/home/u/.ssh''
      [(''a.pub'', False), (''b.pub'', False), (''config'', False)] [] = Inr [keyA, keyB]"
    by (simp only: getKeysLoop.simps names joins time cmt Let_def sum.case keyA_def keyB_def
        not_False_eq_True simp_thms if_True if_False append_Nil append_Cons)
  show ?thesis
    by (simp only: getKeys_def inventory_sshPath dir loop sum.case option.case)
qed

lemma parse_inventory:
  "parseConfig ascendingSched inventoryWorld = Inr [''h'' \<mapsto> [''/home/u/.ssh/a'']]"
proof -
  have lines: "Split inventoryText newline = [''Host h'', ''  IdentityFile /home/u/.ssh/a'', []]"
    by code_simp
  have trims: "TrimSpace ''Host h'' = ''Host h''" "TrimSpace ''h'' = ''h''"
    "TrimSpace ''  IdentityFile /home/u/.ssh/a'' = ''IdentityFile /home/u/.ssh/a''"
    "TrimSpace ''/home/u/.ssh/a'' = ''/home/u/.ssh/a''" "TrimSpace [] = []"
    by code_simp+
  have clean: "Clean ''/home/u/.ssh/a'' = ''/home/u/.ssh/a''"
    by code_simp
  have fs: "files inventoryWorld ''/home/u/.ssh/config'' = Some inventoryText"
    by (simp add: inventoryWorld_def exampleWorld_def)
  show ?thesis
    by (simp add: parseConfig_def inventory_configPath ReadFile_def fs lines trims clean
        HasPrefix_def TrimPrefix_def expandPath_def Abs_def IsAbs_def getLastHost_def
        ascendingSched_def lookup_def)
qed

lemma properListing_inventory: "properListing inventoryWorld"
  by (auto simp: properListing_def inventoryWorld_def split: if_splits)

lemma usedBy_inventory:
  "usedByConfig [''h'' \<mapsto> [''/home/u/.ssh/a'']] b \<longleftrightarrow> b = ''a''"
proof -
  have base: "Base ''/home/u/.ssh/a'' = ''a''" by code_simp
  show ?thesis
    by (auto simp: usedByConfig_def lookup_def base split: if_splits)
qed

text \<open>
  Claim C6. \<open>listUnusedKeys\<close>, on the inventory \<open>keys\<close> and the parsed mapping \<open>config\<close>,
  whatever order the runtime enumerates the map in: the keys listed are exactly the keys
  of the inventory whose name is not the last path element of any key path stored under
  any host; the name of a key is the name of its public-key file without \<open>.pub\<close>.
  \<open>isKeyUsed\<close> answers the same question for the base name it computes from the path of
  the key. With the keys \<open>a\<close> and \<open>b\<close> and a host mapped to a path ending in \<open>a\<close>, the
  command lists exactly \<open>b\<close>.
\<close>

theorem listUnusedKeys_by_basename:
  assumes "validSched sched"
    and "getKeys w = Inr keys"
    and "parseConfig sched w = Inr config"
  shows "listUnusedKeys sched w = Inr (filter (\<lambda>key. \<not> usedByConfig config (name key)) keys)
       \<and> (\<forall>key \<in> set keys. \<exists>fileName.
             HasSuffix fileName ''.pub'' \<and> name key = TrimSuffix fileName ''.pub'')
       \<and> (\<forall>ks key. rangeOrder config ks \<longrightarrow>
             (isKeyUsed ks key config \<longleftrightarrow>
              usedByConfig config (TrimSuffix (Base (path key)) ''.pub'')))"
proof -
  have "finite (dom config)"
    using assms(3) by (rule parseConfig_finite)
  with assms(1) have "rangeOrder config (sched ListUnusedKeys config)"
    by (simp add: validSched_def)
  then have "\<And>b. usedKeys (sched ListUnusedKeys config) config b = usedByConfig config b"
    by (rule usedKeys_iff)
  then have run: "listUnusedKeys sched w =
      Inr (filter (\<lambda>key. \<not> usedByConfig config (name key)) keys)"
    using assms(2,3) by (simp add: listUnusedKeys_def unusedKeys_filter)
  have names: "\<forall>key \<in> set keys. \<exists>fileName.
      HasSuffix fileName ''.pub'' \<and> name key = TrimSuffix fileName ''.pub''"
    using assms(2) by (blast dest: getKeys_names)
  have audit: "\<forall>ks key. rangeOrder config ks \<longrightarrow>
      (isKeyUsed ks key config \<longleftrightarrow> usedByConfig config (TrimSuffix (Base (path key)) ''.pub''))"
    by (simp add: isKeyUsed_iff)
  from run names audit show ?thesis by blast
qed

theorem listUnusedKeys_by_basename_witness:
  "validSched ascendingSched
   \<and> getKeys inventoryWorld = Inr [keyA, keyB]
   \<and> parseConfig ascendingSched inventoryWorld = Inr [''h'' \<mapsto> [''/home/u/.ssh/a'']]
   \<and> Base ''/home/u/.ssh/a'' = name keyA
   \<and> listUnusedKeys ascendingSched inventoryWorld = Inr [keyB]"
proof -
  have base: "Base ''/home/u/.ssh/a'' = ''a''" by code_simp
  have names: "name keyA = ''a''" "name keyB = ''b''"
    by (simp_all add: keyA_def keyB_def)
  show ?thesis
    using validSched_ascending getKeys_inventory parse_inventory
      listUnusedKeys_by_basename [OF validSched_ascending getKeys_inventory parse_inventory]
    by (simp add: usedBy_inventory names base)
qed

text \<open>
  Claim C9. For a key of the inventory \<open>getKeys\<close> returns, the test of the audit
  (\<open>isKeyUsed\<close>, on the path of the key) and the test of the unused command (\<open>usedKeys\<close>, on
  the name of the key) agree, for every mapping and whatever orders the two loops
  enumerate it in.
\<close>

theorem isKeyUsed_agrees_with_usedKeys:
  assumes "properListing w" and "getKeys w = Inr keys" and "key \<in> set keys"
    and "rangeOrder config ks" and "rangeOrder config ks'"
  shows "isKeyUsed ks key config \<longleftrightarrow> usedKeys ks' config (name key)"
proof -
  have "TrimSuffix (Base (path key)) ''.pub'' = name key"
    using assms(1-3) by (rule getKeys_name_path)
  then show ?thesis
    using assms(4,5) by (simp add: isKeyUsed_iff usedKeys_iff)
qed

theorem isKeyUsed_agrees_with_usedKeys_witness:
  "properListing inventoryWorld
   \<and> getKeys inventoryWorld = Inr [keyA, keyB]
   \<and> keyA \<in> set [keyA, keyB]
   \<and> rangeOrder [''h'' \<mapsto> [''/home/u/.ssh/a'']] [''h'']
   \<and> isKeyUsed [''h''] keyA [''h'' \<mapsto> [''/home/u/.ssh/a'']]
   \<and> usedKeys [''h''] [''h'' \<mapsto> [''/home/u/.ssh/a'']] (name keyA)"
proof -
  have base: "Base ''/home/u/.ssh/a'' = ''a''" by code_simp
  have ord: "rangeOrder [''h'' \<mapsto> [''/home/u/.ssh/a'']] [''h'']"
    by (simp add: rangeOrder_def)
  have mem: "keyA \<in> set [keyA, keyB]" by simp
  have used: "usedKeys [''h''] [''h'' \<mapsto> [''/home/u/.ssh/a'']] (name keyA)"
    by (simp add: usedKeys_def lookup_def base keyA_def)
  show ?thesis
    using properListing_inventory getKeys_inventory mem ord used
      isKeyUsed_agrees_with_usedKeys [OF properListing_inventory getKeys_inventory mem ord ord]
    by simp
qed

section \<open>The parser and the host of an \<open>IdentityFile\<close> line\<close>

text \<open>
  Claim C1. The claim: every \<open>IdentityFile\<close> line goes to the host declared last, and the
  example scenario parses to \<open>foo\<close> with \<open>~/.ssh/id_a\<close> expanded and \<open>bar\<close> with
  \<open>/abs/id_b\<close>. \<open>getLastHost\<close> returns the key its \<open>range\<close> loop visits last, and the order
  of that loop is the runtime's. In the run below the runtime enumerates the two hosts as
  \<open>bar\<close>, \<open>foo\<close> (an order of that map) when the second \<open>IdentityFile\<close> line is read:
  \<open>/abs/id_b\<close> goes to \<open>foo\<close>, and \<open>bar\<close> is left without a key.
\<close>

theorem parseConfig_scenario_wrong_host:
  "parseConfig ascendingSched (exampleWorld [''/home/u/.ssh/config'' \<mapsto> scenarioText]) =
     Inr [''foo'' \<mapsto> [''/home/u/.ssh/id_a'', ''/abs/id_b''], ''bar'' \<mapsto> []]
   \<and> ascendingSched (GetLastHost 1) [''foo'' \<mapsto> []] = [''foo'']
   \<and> rangeOrder [''foo'' \<mapsto> []] [''foo'']
   \<and> ascendingSched (GetLastHost 4) [''foo'' \<mapsto> [''/home/u/.ssh/id_a''], ''bar'' \<mapsto> []] =
       [''bar'', ''foo'']
   \<and> rangeOrder [''foo'' \<mapsto> [''/home/u/.ssh/id_a''], ''bar'' \<mapsto> []] [''bar'', ''foo'']
   \<and> [''foo'' \<mapsto> [''/home/u/.ssh/id_a'', ''/abs/id_b''], ''bar'' \<mapsto> []] ''bar''
       \<noteq> Some [''/abs/id_b'']"
proof -
  have lines: "Split scenarioText newline =
      [''Host foo'', ''  IdentityFile ~/.ssh/id_a'', [], ''Host bar'',
       ''  IdentityFile /abs/id_b'', []]"
    by code_simp
  have trims:
    "TrimSpace ''Host foo'' = ''Host foo''"
    "TrimSpace ''foo'' = ''foo''"
    "TrimSpace ''  IdentityFile ~/.ssh/id_a'' = ''IdentityFile ~/.ssh/id_a''"
    "TrimSpace ''~/.ssh/id_a'' = ''~/.ssh/id_a''"
    "TrimSpace [] = []"
    "TrimSpace ''Host bar'' = ''Host bar''"
    "TrimSpace ''bar'' = ''bar''"
    "TrimSpace ''  IdentityFile /abs/id_b'' = ''IdentityFile /abs/id_b''"
    "TrimSpace ''/abs/id_b'' = ''/abs/id_b''"
    by code_simp+
  have paths:
    "JoinPath ''/home/u'' ''/.ssh/id_a'' = ''/home/u/.ssh/id_a''"
    "Clean ''/abs/id_b'' = ''/abs/id_b''"
    by code_simp+
  have fs: "files (exampleWorld [''/home/u/.ssh/config'' \<mapsto> scenarioText])
      ''/home/u/.ssh/config'' = Some scenarioText"
    "currentUser (exampleWorld [''/home/u/.ssh/config'' \<mapsto> scenarioText]) = Some ''/home/u''"
    by (simp_all add: exampleWorld_def)
  have hosts: "sorted_list_of_set {''bar'', ''foo''} = [''bar'', ''foo'']"
    by simp
  have run: "parseConfig ascendingSched (exampleWorld [''/home/u/.ssh/config'' \<mapsto> scenarioText]) =
     Inr [''foo'' \<mapsto> [''/home/u/.ssh/id_a'', ''/abs/id_b''], ''bar'' \<mapsto> []]"
    by (simp add: parseConfig_def exampleConfigPath ReadFile_def fs lines trims paths
        HasPrefix_def TrimPrefix_def expandPath_def Abs_def IsAbs_def getLastHost_def
        ascendingSched_def lookup_def hosts fun_upd_twist)
  have orders:
    "ascendingSched (GetLastHost 1) [''foo'' \<mapsto> []] = [''foo'']"
    "ascendingSched (GetLastHost 4) [''foo'' \<mapsto> [''/home/u/.ssh/id_a''], ''bar'' \<mapsto> []] =
       [''bar'', ''foo'']"
    by (simp_all add: ascendingSched_def hosts)
  show ?thesis
    using run orders by (simp add: rangeOrder_def) 
qed

section \<open>Usage analysis: multiple mappings\<close>

text \<open>
  Claim C7. The claim: a key path is reported exactly when more than one host refers to
  it. The file below names one key path twice under the single host \<open>h\<close>. The first loop
  appends the host once per entry, so the path is held with the hosts \<open>h\<close>, \<open>h\<close>; the
  second loop counts two and reports the path, though one host refers to it. (The maps
  have one key each, so these are the only orders of the two loops.)
\<close>

theorem findMultipleMappings_counts_entries:
  "parseConfig ascendingSched (exampleWorld [''/home/u/.ssh/config'' \<mapsto> dupText]) =
     Inr [''h'' \<mapsto> [''/home/u/.ssh/k'', ''/home/u/.ssh/k'']]
   \<and> rangeOrder [''h'' \<mapsto> [''/home/u/.ssh/k'', ''/home/u/.ssh/k'']] [''h'']
   \<and> keyMappings [''h''] [''h'' \<mapsto> [''/home/u/.ssh/k'', ''/home/u/.ssh/k'']] =
       [''/home/u/.ssh/k'' \<mapsto> [''h'', ''h'']]
   \<and> rangeOrder [''/home/u/.ssh/k'' \<mapsto> [''h'', ''h'']] [''/home/u/.ssh/k'']
   \<and> findMultipleMappings [''h''] [''/home/u/.ssh/k'']
         [''h'' \<mapsto> [''/home/u/.ssh/k'', ''/home/u/.ssh/k'']] =
       [''/home/u/.ssh/k'' \<mapsto> [''h'', ''h'']]"
proof -
  have p: "parseConfig ascendingSched (exampleWorld [''/home/u/.ssh/config'' \<mapsto> dupText]) =
     Inr [''h'' \<mapsto> [''/home/u/.ssh/k'', ''/home/u/.ssh/k'']]"
    by (rule parse_dupText) simp
  have km: "keyMappings [''h''] [''h'' \<mapsto> [''/home/u/.ssh/k'', ''/home/u/.ssh/k'']] =
       [''/home/u/.ssh/k'' \<mapsto> [''h'', ''h'']]"
    by (simp add: keyMappings_def lookup_def)
  have fm: "findMultipleMappings [''h''] [''/home/u/.ssh/k'']
         [''h'' \<mapsto> [''/home/u/.ssh/k'', ''/home/u/.ssh/k'']] =
       [''/home/u/.ssh/k'' \<mapsto> [''h'', ''h'']]"
    by (simp add: findMultipleMappings_def km lookup_def)
  show ?thesis
    using p km fm by (simp add: rangeOrder_def)
qed

section \<open>Key deletion and the configuration\<close>

text \<open>
  Claim C8. The claim: after the two files are removed, every entry of the configuration
  equal to the full path of the key is removed. With the file that names the key twice
  under \<open>h\<close>, \<open>deleteKey\<close> removes both key files and the first of the two entries, and
  stops at it: the configuration it writes still refers to the deleted key.
\<close>

theorem deleteKey_leaves_duplicate_entry:
  "deleteKey ascendingSched ''k'' deleteWorld =
     Inr (Print (exampleWorld [''/home/u/.ssh/config'' \<mapsto>
            Join [''Host h'', ''  IdentityFile /home/u/.ssh/k'', []] [newline]])
          (''Deleted key k'' @ [newline]))"
proof -
  let ?k = "''/home/u/.ssh/k''"
  let ?fs2 = "[''/home/u/.ssh/config'' \<mapsto> dupText]"
  have full: "getFullKeyPath deleteWorld ''k'' = Inr ?k"
  proof -
    have "JoinPath ''/home/u'' ''.ssh'' = ''/home/u/.ssh''"
      "JoinPath ''/home/u/.ssh'' ''k'' = ''/home/u/.ssh/k''" "\<not> IsAbs ''k''"
      by code_simp+
    then show ?thesis
      by (simp add: getFullKeyPath_def getSSHPath_def deleteWorld_def exampleWorld_def sshDir_def)
  qed
  have fs2: "[''/home/u/.ssh/config'' \<mapsto> dupText, ?k \<mapsto> ''PRIVATE KEY'',
       ''/home/u/.ssh/k.pub'' \<mapsto> ''ssh-ed25519 KKKK''](?k := None, ''/home/u/.ssh/k.pub'' := None) = ?fs2"
    by (rule ext) simp
  have rm: "Remove deleteWorld ?k =
      Inr (exampleWorld ([''/home/u/.ssh/config'' \<mapsto> dupText, ?k \<mapsto> ''PRIVATE KEY'',
       ''/home/u/.ssh/k.pub'' \<mapsto> ''ssh-ed25519 KKKK''](?k := None)))"
    by (simp add: Remove_def deleteWorld_def exampleWorld_def)
  have "Remove (exampleWorld ([''/home/u/.ssh/config'' \<mapsto> dupText, ?k \<mapsto> ''PRIVATE KEY'',
       ''/home/u/.ssh/k.pub'' \<mapsto> ''ssh-ed25519 KKKK''](?k := None))) ''/home/u/.ssh/k.pub'' =
      Inr (exampleWorld ([''/home/u/.ssh/config'' \<mapsto> dupText, ?k \<mapsto> ''PRIVATE KEY'',
       ''/home/u/.ssh/k.pub'' \<mapsto> ''ssh-ed25519 KKKK''](?k := None, ''/home/u/.ssh/k.pub'' := None)))"
    by (simp add: Remove_def exampleWorld_def)
  then have rm2: "Remove (exampleWorld ([''/home/u/.ssh/config'' \<mapsto> dupText, ?k \<mapsto> ''PRIVATE KEY'',
       ''/home/u/.ssh/k.pub'' \<mapsto> ''ssh-ed25519 KKKK''](?k := None))) (?k @ ''.pub'') =
      Inr (exampleWorld ?fs2)"
    by (simp only: fs2 append_Cons append_Nil)
  have p: "parseConfig ascendingSched (exampleWorld ?fs2) = Inr [''h'' \<mapsto> [?k, ?k]]"
    by (rule parse_dupText) simp
  have order: "ascendingSched DeleteKey [''h'' \<mapsto> [?k, ?k]] = [''h'']"
    "ascendingSched WriteConfig [''h'' \<mapsto> [?k]] = [''h'']"
    by (simp_all add: ascendingSched_def)
  have step: "foldl (deleteStep ?k) [''h'' \<mapsto> [?k, ?k]] [''h''] = [''h'' \<mapsto> [?k]]"
    by (simp add: deleteStep_def lookup_def)
  have rendered: "configText [''h''] [''h'' \<mapsto> [?k]] =
      Join [''Host h'', ''  IdentityFile /home/u/.ssh/k'', []] [newline]"
    by (simp add: configText_def hostBlock_def lookup_def)
  have wr: "writeConfig [''h''] ''/home/u/.ssh/config'' [''h'' \<mapsto> [?k]] (exampleWorld ?fs2) =
      Inr (exampleWorld [''/home/u/.ssh/config'' \<mapsto>
            Join [''Host h'', ''  IdentityFile /home/u/.ssh/k'', []] [newline]])"
    by (simp add: writeConfig_def WriteFile_def rendered exampleWorld_def)
  have "deleteKey ascendingSched ''k'' deleteWorld =
     Inr (Print (exampleWorld [''/home/u/.ssh/config'' \<mapsto>
            Join [''Host h'', ''  IdentityFile /home/u/.ssh/k'', []] [newline]])
          (''Deleted key '' @ ''k'' @ [newline]))"
    by (simp only: deleteKey_def full rm rm2 exampleConfigPath p order step wr Let_def
        sum.case prod.case)
  then show ?thesis by simp
qed

section \<open>Facts about trimming\<close>

lemma spaceRunes_nonempty: "w \<in> set spaceRunes \<Longrightarrow> w \<noteq> []"
  by (auto simp: spaceRunes_def)

lemma leadingSpace_zero: "leadingSpace s = 0 \<longleftrightarrow> (\<forall>w \<in> set spaceRunes. \<not> prefix w s)"
  by (auto simp: leadingSpace_def find_None_iff find_Some_iff spaceRunes_nonempty
      split: option.splits)

lemma trailingSpace_zero: "trailingSpace s = 0 \<longleftrightarrow> (\<forall>w \<in> set spaceRunes. \<not> suffix w s)"
  by (auto simp: trailingSpace_def find_None_iff find_Some_iff spaceRunes_nonempty
      split: option.splits)

lemma TrimLeft_fixed: "leadingSpace s = 0 \<Longrightarrow> TrimLeft s = s"
  by (simp add: TrimLeft.simps)

lemma TrimRight_fixed: "trailingSpace s = 0 \<Longrightarrow> TrimRight s = s"
  by (simp add: TrimRight.simps)

lemma TrimRight_done: "trailingSpace (TrimRight s) = 0"
proof (induction s rule: TrimRight.induct)
  case (1 s)
  show ?case
  proof (cases "trailingSpace s = 0")
    case True
    then show ?thesis by (simp add: TrimRight_fixed)
  next
    case False
    with 1 show ?thesis by (subst TrimRight.simps) simp
  qed
qed

lemma TrimLeft_suffix: "suffix (TrimLeft s) s"
proof (induction s rule: TrimLeft.induct)
  case (1 s)
  show ?case
  proof (cases "leadingSpace s = 0")
    case True
    then show ?thesis by (simp add: TrimLeft_fixed)
  next
    case False
    with 1 have "suffix (TrimLeft (drop (leadingSpace s) s)) (drop (leadingSpace s) s)"
      by simp
    then have "suffix (TrimLeft (drop (leadingSpace s) s)) s"
      using suffix_drop suffix_order.trans by blast
    with False show ?thesis by (subst TrimLeft.simps) simp
  qed
qed

lemma TrimSpace_fixed_trailing:
  assumes "TrimSpace s = s"
  shows "trailingSpace s = 0"
  using TrimRight_done [of "TrimLeft s"] assms by (simp add: TrimSpace_def)

lemma TrimSpace_Nil: "TrimSpace [] = []"
  by code_simp

text \<open>A string of white space only ends with a white-space rune.\<close>

lemma TrimLeft_empty_trailing:
  "TrimLeft s = [] \<Longrightarrow> s \<noteq> [] \<Longrightarrow> trailingSpace s \<noteq> 0"
proof (induction s rule: TrimLeft.induct)
  case (1 s)
  from "1.prems" have ls: "leadingSpace s \<noteq> 0"
    using TrimLeft_fixed by fastforce
  then obtain w where w: "w \<in> set spaceRunes" "prefix w s" "leadingSpace s = length w"
    by (auto simp: leadingSpace_def find_Some_iff split: option.splits) (metis nth_mem)
  from ls "1.prems"(1) have t: "TrimLeft (drop (leadingSpace s) s) = []"
    by (subst (asm) TrimLeft.simps) simp
  show ?case
  proof (cases "drop (leadingSpace s) s = []")
    case True
    with w have "s = w" by (auto simp: prefix_def)
    with w(1) show ?thesis by (auto simp: trailingSpace_zero)
  next
    case False
    from "1.IH" [OF ls t False] obtain v where "v \<in> set spaceRunes"
      "suffix v (drop (leadingSpace s) s)"
      by (auto simp: trailingSpace_zero)
    then have "suffix v s"
      using suffix_drop suffix_order.trans by blast
    with \<open>v \<in> set spaceRunes\<close> show ?thesis by (auto simp: trailingSpace_zero)
  qed
qed

lemma TrimSpace_empty_trailing:
  assumes "TrimSpace s = []" and "s \<noteq> []"
  shows "trailingSpace s \<noteq> 0"
proof (cases "TrimLeft s = []")
  case True
  then show ?thesis using assms(2) by (rule TrimLeft_empty_trailing)
next
  case False
  have "trailingSpace (TrimLeft s) \<noteq> 0"
  proof
    assume "trailingSpace (TrimLeft s) = 0"
    then have "TrimRight (TrimLeft s) = TrimLeft s" by (rule TrimRight_fixed)
    with assms(1) False show False by (simp add: TrimSpace_def)
  qed
  then obtain v where "v \<in> set spaceRunes" "suffix v (TrimLeft s)"
    by (auto simp: trailingSpace_zero)
  then have "suffix v s"
    using TrimLeft_suffix suffix_order.trans by blast
  with \<open>v \<in> set spaceRunes\<close> show ?thesis by (auto simp: trailingSpace_zero)
qed

lemma trailingSpace_append: "trailingSpace s \<noteq> 0 \<Longrightarrow> trailingSpace (a @ s) \<noteq> 0"
  by (auto simp: trailingSpace_zero suffix_append)

section \<open>An \<open>IdentityFile\<close> line before any \<open>Host\<close> line\<close>

lemma parseLines_Cons:
  "parseLines sched w i (l # ls) c =
     (if hostLine l then parseLines sched w (Suc i) ls (c(hostName l \<mapsto> []))
      else if identityLine l then
        (case expandPath w (identityArg l) of
           Inl err \<Rightarrow> Inl err
         | Inr keyPath \<Rightarrow>
             parseLines sched w (Suc i) ls
               (c(getLastHost (sched (GetLastHost i) c) c \<mapsto>
                  lookup c (getLastHost (sched (GetLastHost i) c) c) @ [keyPath])))
      else parseLines sched w (Suc i) ls c)"
  by (simp add: hostLine_def hostName_def identityLine_def identityArg_def Let_def
      split: sum.splits)

declare parseLines.simps(2) [simp del]

lemma hostName_nonempty:
  assumes "hostLine l"
  shows "hostName l \<noteq> []"
proof
  assume e: "hostName l = []"
  define line where "line = TrimSpace l"
  from assms obtain r where r: "line = ''Host '' @ r"
    by (auto simp: hostLine_def HasPrefix_def prefix_def line_def)
  have t: "trailingSpace line = 0"
    unfolding line_def TrimSpace_def by (rule TrimRight_done)
  have tp: "TrimPrefix line ''Host '' = r"
    using r by (simp add: TrimPrefix_def HasPrefix_def)
  with e have tr: "TrimSpace r = []"
    by (simp add: hostName_def line_def [symmetric])
  show False
  proof (cases "r = []")
    case True
    have "'' '' \<in> set spaceRunes" by (simp add: spaceRunes_def)
    moreover have "suffix '' '' line" using r True by (simp add: suffix_def)
    ultimately show False using t by (auto simp: trailingSpace_zero)
  next
    case False
    with tr have "trailingSpace r \<noteq> 0" by (rule TrimSpace_empty_trailing)
    then have "trailingSpace (''Host '' @ r) \<noteq> 0" by (rule trailingSpace_append)
    with t r show False by simp
  qed
qed

lemma expandPath_ok:
  assumes "currentUser w = Some homeDir" and "workingDir w = Some wd"
  shows "\<exists>p. expandPath w q = Inr p"
  using assms by (simp add: expandPath_def Abs_def)

lemma foldl_last: "foldl (\<lambda>lastHost host. host) a ks = (if ks = [] then a else last ks)"
  by (induction ks arbitrary: a) auto

lemma getLastHost_no_host:
  assumes "validSched sched" and "dom c \<subseteq> {[]}"
  shows "getLastHost (sched s c) c = []"
proof -
  have "finite (dom c)"
    using assms(2) by (rule finite_subset) simp
  with assms(1) have "set (sched s c) = dom c"
    by (simp add: validSched_def rangeOrder_def)
  with assms(2) have sub: "set (sched s c) \<subseteq> {[]}" by simp
  show ?thesis
  proof (cases "sched s c = []")
    case True
    then show ?thesis by (simp add: getLastHost_def)
  next
    case False
    then have "last (sched s c) \<in> set (sched s c)" by simp
    with sub have "last (sched s c) = []" by blast
    with False show ?thesis by (simp add: getLastHost_def foldl_last)
  qed
qed

lemma lookup_upd_same: "lookup (c(h \<mapsto> ps)) h = ps"
  by (simp add: lookup_def)

lemma lookup_upd_other: "h' \<noteq> h \<Longrightarrow> lookup (c(h \<mapsto> ps)) h' = lookup c h'"
  by (simp add: lookup_def)

lemma parseLines_keeps_entry:
  assumes "currentUser w = Some homeDir" and "workingDir w = Some wd"
  shows "keyPath \<in> set (lookup c []) \<Longrightarrow>
         \<exists>c'. parseLines sched w i ls c = Inr c' \<and> keyPath \<in> set (lookup c' [])"
proof (induction ls arbitrary: i c)
  case Nil
  then show ?case by simp
next
  case (Cons l ls)
  show ?case
  proof (cases "hostLine l")
    case True
    then have "hostName l \<noteq> []" by (rule hostName_nonempty)
    with Cons.prems have keep: "keyPath \<in> set (lookup (c(hostName l \<mapsto> [])) [])"
      by (simp add: lookup_upd_other)
    have step: "parseLines sched w i (l # ls) c =
        parseLines sched w (Suc i) ls (c(hostName l \<mapsto> []))"
      using True by (simp add: parseLines_Cons)
    show ?thesis
      unfolding step
      by (rule Cons.IH [where c = "c(hostName l \<mapsto> [])" and i = "Suc i", OF keep])
  next
    case False
    show ?thesis
    proof (cases "identityLine l")
      case True
      obtain p where p: "expandPath w (identityArg l) = Inr p"
        using expandPath_ok [OF assms] by blast
      define h where "h = getLastHost (sched (GetLastHost i) c) c"
      have keep: "keyPath \<in> set (lookup (c(h \<mapsto> lookup c h @ [p])) [])"
        using Cons.prems by (cases "h = []") (simp_all add: lookup_upd_same lookup_upd_other)
      have step: "parseLines sched w i (l # ls) c =
          parseLines sched w (Suc i) ls (c(h \<mapsto> lookup c h @ [p]))"
        using False True p by (simp add: parseLines_Cons h_def)
      show ?thesis
        unfolding step
        by (rule Cons.IH [where c = "c(h \<mapsto> lookup c h @ [p])" and i = "Suc i", OF keep])
    next
      case no: False
      have step: "parseLines sched w i (l # ls) c = parseLines sched w (Suc i) ls c"
        using False no by (simp add: parseLines_Cons)
      show ?thesis
        unfolding step by (rule Cons.IH [where c = c and i = "Suc i", OF Cons.prems])
    qed
  qed
qed

lemma parseLines_identity_first:
  assumes "validSched sched" and "currentUser w = Some homeDir" and "workingDir w = Some wd"
    and "identityLine l"
  shows "\<forall>x \<in> set before. \<not> hostLine x \<Longrightarrow> dom c \<subseteq> {[]} \<Longrightarrow>
         \<exists>c' keyPath. parseLines sched w i (before @ l # after) c = Inr c'
           \<and> expandPath w (identityArg l) = Inr keyPath \<and> keyPath \<in> set (lookup c' [])"
proof (induction before arbitrary: i c)
  case Nil
  obtain p where p: "expandPath w (identityArg l) = Inr p"
    using expandPath_ok [OF assms(2,3)] by blast
  have h: "getLastHost (sched (GetLastHost i) c) c = []"
    using assms(1) Nil.prems(2) by (rule getLastHost_no_host)
  have "p \<in> set (lookup (c([] \<mapsto> lookup c [] @ [p])) [])"
    by (simp add: lookup_upd_same)
  from parseLines_keeps_entry [OF assms(2,3) this, where sched = sched and i = "Suc i"
      and ls = after]
  obtain c' where c': "parseLines sched w (Suc i) after (c([] \<mapsto> lookup c [] @ [p])) = Inr c'"
    "p \<in> set (lookup c' [])"
    by blast
  have step: "parseLines sched w i ([] @ l # after) c =
      parseLines sched w (Suc i) after (c([] \<mapsto> lookup c [] @ [p]))"
    using assms(4) p h by (simp add: parseLines_Cons identityLine_def)
  show ?case
    unfolding step using c' p by blast
next
  case (Cons x xs)
  from Cons.prems(1) have nx: "\<not> hostLine x" and rest: "\<forall>x \<in> set xs. \<not> hostLine x"
    by simp_all
  show ?case
  proof (cases "identityLine x")
    case True
    obtain p where p: "expandPath w (identityArg x) = Inr p"
      using expandPath_ok [OF assms(2,3)] by blast
    have h: "getLastHost (sched (GetLastHost i) c) c = []"
      using assms(1) Cons.prems(2) by (rule getLastHost_no_host)
    have small: "dom (c([] \<mapsto> lookup c [] @ [p])) \<subseteq> {[]}"
      using Cons.prems(2) by auto
    have step: "parseLines sched w i ((x # xs) @ l # after) c =
        parseLines sched w (Suc i) (xs @ l # after) (c([] \<mapsto> lookup c [] @ [p]))"
      using nx True p h by (simp add: parseLines_Cons)
    show ?thesis
      unfolding step
      by (rule Cons.IH [where c = "c([] \<mapsto> lookup c [] @ [p])" and i = "Suc i", OF rest small])
  next
    case False
    have step: "parseLines sched w i ((x # xs) @ l # after) c =
        parseLines sched w (Suc i) (xs @ l # after) c"
      using nx False by (simp add: parseLines_Cons)
    show ?thesis
      unfolding step by (rule Cons.IH [where c = c and i = "Suc i", OF rest Cons.prems(2)])
  qed
qed

text \<open>
  Claim C10. When the file has an \<open>IdentityFile\<close> line with no \<open>Host\<close> line before it, and
  the environment answers (the user and the working directory are known, the file is
  read), the parser returns a mapping, whatever orders the runtime enumerates the map in:
  no host exists when the line is read, \<open>getLastHost\<close> returns the empty string, and the
  expanded path of the line is appended under it. The mapping returned has the key \<open>""\<close>,
  and the path is still in its list: no later \<open>Host\<close> line can name the empty host.
\<close>

theorem parseConfig_identity_before_host:
  assumes "validSched sched"
    and "currentUser w = Some homeDir" and "workingDir w = Some wd"
    and "getConfigPath w = Inr configPath" and "files w configPath = Some content"
    and "Split content newline = before @ l # after"
    and "\<forall>x \<in> set before. \<not> hostLine x"
    and "identityLine l"
  shows "\<exists>config keyPath. parseConfig sched w = Inr config
           \<and> expandPath w (identityArg l) = Inr keyPath
           \<and> [] \<in> dom config \<and> keyPath \<in> set (lookup config [])"
proof -
  have "dom (Map.empty :: config) \<subseteq> {[]}" by simp
  from parseLines_identity_first [OF assms(1,2,3,8) assms(7) this, where i = 0
      and after = after]
  obtain c' keyPath where r: "parseLines sched w 0 (before @ l # after) Map.empty = Inr c'"
    "expandPath w (identityArg l) = Inr keyPath" "keyPath \<in> set (lookup c' [])"
    by blast
  from r(3) have "[] \<in> dom c'"
    by (cases "c' []") (auto simp: lookup_def)
  moreover have "parseConfig sched w = Inr c'"
    using assms(4,5,6) r(1) by (simp add: parseConfig_def ReadFile_def)
  ultimately show ?thesis using r(2,3) by blast
qed

theorem parseConfig_identity_before_host_witness:
  "validSched ascendingSched
   \<and> currentUser (exampleWorld [''/home/u/.ssh/config'' \<mapsto> orphanText]) = Some ''/home/u''
   \<and> workingDir (exampleWorld [''/home/u/.ssh/config'' \<mapsto> orphanText]) = Some ''/work''
   \<and> getConfigPath (exampleWorld [''/home/u/.ssh/config'' \<mapsto> orphanText]) =
       Inr ''/home/u/.ssh/config''
   \<and> files (exampleWorld [''/home/u/.ssh/config'' \<mapsto> orphanText]) ''/home/u/.ssh/config'' =
       Some orphanText
   \<and> Split orphanText newline = [''# keys''] @ ''IdentityFile /abs/id_b'' # [''Host foo'', []]
   \<and> \<not> hostLine ''# keys''
   \<and> identityLine ''IdentityFile /abs/id_b''
   \<and> expandPath (exampleWorld [''/home/u/.ssh/config'' \<mapsto> orphanText])
         (identityArg ''IdentityFile /abs/id_b'') = Inr ''/abs/id_b''
   \<and> (\<exists>config. parseConfig ascendingSched (exampleWorld [''/home/u/.ssh/config'' \<mapsto> orphanText])
          = Inr config \<and> [] \<in> dom config \<and> ''/abs/id_b'' \<in> set (lookup config []))"
proof -
  let ?w = "exampleWorld [''/home/u/.ssh/config'' \<mapsto> orphanText]"
  have env: "currentUser ?w = Some ''/home/u''" "workingDir ?w = Some ''/work''"
    "files ?w ''/home/u/.ssh/config'' = Some orphanText"
    by (simp_all add: exampleWorld_def)
  have lines: "Split orphanText newline =
      [''# keys''] @ ''IdentityFile /abs/id_b'' # [''Host foo'', []]"
    by code_simp
  have nohost: "\<forall>x \<in> set [''# keys'']. \<not> hostLine x"
    by code_simp
  have nh: "\<not> hostLine ''# keys''"
    by code_simp
  have ident: "identityLine ''IdentityFile /abs/id_b''"
    by code_simp
  have arg: "identityArg ''IdentityFile /abs/id_b'' = ''/abs/id_b''"
    by code_simp
  have clean: "Clean ''/abs/id_b'' = ''/abs/id_b''" "IsAbs ''/abs/id_b''" "\<not> HasPrefix ''/abs/id_b'' ''~''"
    by code_simp+
  have ex: "expandPath ?w (identityArg ''IdentityFile /abs/id_b'') = Inr ''/abs/id_b''"
    unfolding arg by (simp add: expandPath_def Abs_def clean)
  from parseConfig_identity_before_host [OF validSched_ascending env(1,2) exampleConfigPath
      env(3) lines nohost ident]
  have "\<exists>config. parseConfig ascendingSched ?w = Inr config \<and> [] \<in> dom config
      \<and> ''/abs/id_b'' \<in> set (lookup config [])"
    unfolding ex by auto
  with validSched_ascending env exampleConfigPath lines nh ident ex show ?thesis
    by blast
qed

section \<open>Parsing what the writer wrote\<close>

lemma Split_Join:
  "ls \<noteq> [] \<Longrightarrow> \<forall>l \<in> set ls. d \<notin> set l \<Longrightarrow> Split (Join ls [d]) d = ls"
proof (induction ls "[d]" rule: Join.induct)
  case 1
  then show ?case by simp
next
  case (2 x)
  then show ?case by (simp add: Split_no_sep)
next
  case (3 x y ys)
  have "Split (x @ d # Join (y # ys) [d]) d = Split x d @ Split (Join (y # ys) [d]) d"
    by (rule Split_append)
  with 3 show ?case by (simp add: Split_no_sep)
qed

lemma space_inside_rune: "w \<in> set spaceRunes \<Longrightarrow> CHR '' '' \<notin> set (butlast w)"
  by (auto simp: spaceRunes_def)

lemma trailingSpace_after_space:
  assumes "trailingSpace s = 0" and "s \<noteq> []"
  shows "trailingSpace (a @ '' '' @ s) = 0"
proof -
  have "\<not> suffix w (a @ '' '' @ s)" if w: "w \<in> set spaceRunes" for w
  proof
    assume "suffix w (a @ '' '' @ s)"
    then have "suffix w ((a @ '' '') @ s)" by simp
    then consider "suffix w s" | xs where "suffix xs (a @ '' '')" "w = xs @ s"
      unfolding suffix_append by blast
    then show False
    proof cases
      case 1
      with assms(1) w show False by (auto simp: trailingSpace_zero)
    next
      case 2
      show False
      proof (cases "xs = []")
        case True
        with 2 have "suffix w s" by simp
        with assms(1) w show False by (auto simp: trailingSpace_zero)
      next
        case False
        from 2(1) obtain ys where ys: "a @ '' '' = ys @ xs" by (auto simp: suffix_def)
        with False have "last xs = CHR '' ''"
          by (metis last_appendR last_snoc)
        with False have "CHR '' '' \<in> set xs"
          using last_in_set by metis
        moreover have "butlast w = xs @ butlast s"
          using 2(2) assms(2) by (simp add: butlast_append)
        ultimately have "CHR '' '' \<in> set (butlast w)" by simp
        with space_inside_rune [OF w] show False by simp
      qed
    qed
  qed
  then show ?thesis by (simp add: trailingSpace_zero)
qed

lemma TrimSpace_host_line:
  assumes "stableHost h"
  shows "TrimSpace (''Host '' @ h) = ''Host '' @ h"
proof -
  have t: "trailingSpace h = 0" and ne: "h \<noteq> []"
    using assms by (simp_all add: stableHost_def TrimSpace_fixed_trailing)
  have "leadingSpace (''Host '' @ h) = 0"
    by (simp add: leadingSpace_zero spaceRunes_def)
  then have l: "TrimLeft (''Host '' @ h) = ''Host '' @ h" by (rule TrimLeft_fixed)
  have "trailingSpace (''Host'' @ '' '' @ h) = 0"
    using t ne by (rule trailingSpace_after_space)
  then have "TrimRight (''Host '' @ h) = ''Host '' @ h"
    by (intro TrimRight_fixed) simp
  with l show ?thesis by (simp add: TrimSpace_def)
qed

lemma TrimSpace_identity_line:
  assumes "p \<noteq> []" and "TrimSpace p = p"
  shows "TrimSpace (''  IdentityFile '' @ p) = ''IdentityFile '' @ p"
proof -
  have t: "trailingSpace p = 0"
    using assms(2) by (rule TrimSpace_fixed_trailing)
  have l2: "leadingSpace (''  IdentityFile '' @ p) = 1"
    by (simp add: leadingSpace_def spaceRunes_def)
  have l1: "leadingSpace ('' IdentityFile '' @ p) = 1"
    by (simp add: leadingSpace_def spaceRunes_def)
  have l0: "leadingSpace (''IdentityFile '' @ p) = 0"
    by (simp add: leadingSpace_zero spaceRunes_def)
  have "TrimLeft (''  IdentityFile '' @ p) = TrimLeft ('' IdentityFile '' @ p)"
    using TrimLeft.simps [of "''  IdentityFile '' @ p"] unfolding l2 by simp
  also have "\<dots> = TrimLeft (''IdentityFile '' @ p)"
    using TrimLeft.simps [of "'' IdentityFile '' @ p"] unfolding l1 by simp
  also have "\<dots> = ''IdentityFile '' @ p"
    using l0 by (rule TrimLeft_fixed)
  finally have l: "TrimLeft (''  IdentityFile '' @ p) = ''IdentityFile '' @ p" .
  have "trailingSpace (''IdentityFile'' @ '' '' @ p) = 0"
    using t assms(1) by (rule trailingSpace_after_space)
  then have "TrimRight (''IdentityFile '' @ p) = ''IdentityFile '' @ p"
    by (intro TrimRight_fixed) simp
  with l show ?thesis by (simp add: TrimSpace_def)
qed

lemma block_host_line:
  assumes "stableHost h"
  shows "hostLine (''Host '' @ h)" and "hostName (''Host '' @ h) = h"
proof -
  have t: "TrimSpace (''Host '' @ h) = ''Host '' @ h"
    using assms by (rule TrimSpace_host_line)
  show "hostLine (''Host '' @ h)"
    unfolding hostLine_def t by (simp add: HasPrefix_def)
  have "TrimPrefix (''Host '' @ h) ''Host '' = h"
    by (simp add: TrimPrefix_def HasPrefix_def)
  then show "hostName (''Host '' @ h) = h"
    unfolding hostName_def t using assms by (simp add: stableHost_def)
qed

lemma block_identity_line:
  assumes "stablePath w p"
  shows "identityLine (''  IdentityFile '' @ p)" and "identityArg (''  IdentityFile '' @ p) = p"
proof -
  have p: "p \<noteq> []" "TrimSpace p = p"
    using assms by (simp_all add: stablePath_def)
  have t: "TrimSpace (''  IdentityFile '' @ p) = ''IdentityFile '' @ p"
    using p by (rule TrimSpace_identity_line)
  show "identityLine (''  IdentityFile '' @ p)"
    unfolding identityLine_def hostLine_def t by (simp add: HasPrefix_def)
  have "TrimPrefix (''IdentityFile '' @ p) ''IdentityFile '' = p"
    by (simp add: TrimPrefix_def HasPrefix_def)
  then show "identityArg (''  IdentityFile '' @ p) = p"
    unfolding identityArg_def t using p(2) by simp
qed

lemma blank_line: "\<not> hostLine []" "\<not> identityLine []"
  by (simp_all add: hostLine_def identityLine_def TrimSpace_Nil HasPrefix_def)

lemma expandPath_files [simp]: "expandPath (w\<lparr>files := f\<rparr>) p = expandPath w p"
  by (simp add: expandPath_def Abs_def)

lemma getConfigPath_files [simp]: "getConfigPath (w\<lparr>files := f\<rparr>) = getConfigPath w"
  by (simp add: getConfigPath_def getSSHPath_def)

lemma stablePath_files: "stablePath (w\<lparr>files := f\<rparr>) p = stablePath w p"
  by (simp add: stablePath_def)

lemma sorted_le_last: "sorted xs \<Longrightarrow> x \<in> set xs \<Longrightarrow> x \<le> last xs"
  by (induction xs) auto

lemma last_sorted_Max:
  fixes xs :: "string list"
  assumes "sorted xs" and "xs \<noteq> []"
  shows "last xs = Max (set xs)"
proof -
  have "Max (set xs) = last xs"
  proof (rule Max_eqI)
    show "finite (set xs)" by simp
    show "y \<le> last xs" if "y \<in> set xs" for y
      using assms(1) that by (rule sorted_le_last)
    show "last xs \<in> set xs" using assms(2) by simp
  qed
  then show ?thesis by simp
qed

lemma declaredLast_ascending:
  assumes "finite (dom config)"
  shows "declaredLast ascendingSched config"
  unfolding declaredLast_def
proof (intro allI impI)
  fix i and c :: config
  assume a: "c \<noteq> Map.empty \<and> dom c \<subseteq> dom config"
  then have fin: "finite (dom c)" using assms finite_subset by blast
  from a have ne: "dom c \<noteq> {}" by (metis dom_eq_empty_conv)
  let ?xs = "sorted_list_of_set (dom c)"
  have set: "set ?xs = dom c" using fin by simp
  with ne have "?xs \<noteq> []" by (metis set_empty)
  moreover have "sorted ?xs" by simp
  ultimately have "last ?xs = Max (set ?xs)" using last_sorted_Max by blast
  with \<open>?xs \<noteq> []\<close> set
  show "getLastHost (ascendingSched (GetLastHost i) c) c = Max (dom c)"
    by (simp add: getLastHost_def ascendingSched_def foldl_last)
qed

text \<open>With at most one host, every run returns the host declared last.\<close>

lemma declaredLast_single_host:
  assumes "validSched sched" and "dom config \<subseteq> {h}"
  shows "declaredLast sched config"
  unfolding declaredLast_def
proof (intro allI impI)
  fix i and c :: config
  assume a: "c \<noteq> Map.empty \<and> dom c \<subseteq> dom config"
  then have "dom c \<noteq> {}" by (metis dom_eq_empty_conv)
  with a assms(2) have d: "dom c = {h}" by blast
  then have "finite (dom c)" by simp
  with assms(1) have ks: "set (sched (GetLastHost i) c) = {h}"
    using d by (simp add: validSched_def rangeOrder_def)
  have ne: "sched (GetLastHost i) c \<noteq> []"
  proof
    assume "sched (GetLastHost i) c = []"
    with ks show False by simp
  qed
  then have "last (sched (GetLastHost i) c) \<in> set (sched (GetLastHost i) c)"
    by (rule last_in_set)
  with ks have "last (sched (GetLastHost i) c) = h" by simp
  with ne show "getLastHost (sched (GetLastHost i) c) c = Max (dom c)"
    by (simp add: getLastHost_def foldl_last d)
qed

lemma Max_new_host:
  fixes h :: string
  assumes "finite (dom c)" and "\<forall>x \<in> dom c. x < h"
  shows "Max (dom (c(h \<mapsto> acc))) = h"
proof (rule Max_eqI)
  show "finite (dom (c(h \<mapsto> acc)))" using assms(1) by simp
  show "y \<le> h" if "y \<in> dom (c(h \<mapsto> acc))" for y
    using that assms(2) by (cases "y = h") (auto simp: less_imp_le)
  show "h \<in> dom (c(h \<mapsto> acc))" by simp
qed

lemma parse_identity_lines:
  assumes "\<And>j acc. getLastHost (sched (GetLastHost j) (c(h \<mapsto> acc))) (c(h \<mapsto> acc)) = h"
  shows "\<forall>p \<in> set ps. stablePath w p \<Longrightarrow>
     parseLines sched w i (map (\<lambda>p. ''  IdentityFile '' @ p) ps @ rest) (c(h \<mapsto> acc)) =
     parseLines sched w (i + length ps) rest (c(h \<mapsto> acc @ ps))"
proof (induction ps arbitrary: i acc)
  case Nil
  then show ?case by simp
next
  case (Cons p ps)
  from Cons.prems have p: "stablePath w p" and rest: "\<forall>p \<in> set ps. stablePath w p"
    by simp_all
  have line: "identityLine (''  IdentityFile '' @ p)" "identityArg (''  IdentityFile '' @ p) = p"
    using p by (rule block_identity_line)+
  have nh: "\<not> hostLine (''  IdentityFile '' @ p)"
    using line(1) by (simp add: identityLine_def)
  have ex: "expandPath w p = Inr p"
    using p by (simp add: stablePath_def)
  have upd: "(c(h \<mapsto> acc))(h \<mapsto> lookup (c(h \<mapsto> acc)) h @ [p]) = c(h \<mapsto> acc @ [p])"
    by (simp add: lookup_upd_same)
  have "parseLines sched w i
      ((''  IdentityFile '' @ p) # (map (\<lambda>p. ''  IdentityFile '' @ p) ps @ rest)) (c(h \<mapsto> acc)) =
    parseLines sched w (Suc i)
      (map (\<lambda>p. ''  IdentityFile '' @ p) ps @ rest)
      ((c(h \<mapsto> acc))(h \<mapsto> lookup (c(h \<mapsto> acc)) h @ [p]))"
    by (simp only: parseLines_Cons nh line ex assms if_False if_True sum.case)
  then have "parseLines sched w i
      (map (\<lambda>p. ''  IdentityFile '' @ p) (p # ps) @ rest) (c(h \<mapsto> acc)) =
    parseLines sched w (Suc i)
      (map (\<lambda>p. ''  IdentityFile '' @ p) ps @ rest) (c(h \<mapsto> acc @ [p]))"
    by (simp only: upd list.map append_Cons)
  also have "\<dots> = parseLines sched w (Suc i + length ps) rest (c(h \<mapsto> (acc @ [p]) @ ps))"
    by (rule Cons.IH [OF rest])
  finally have "parseLines sched w i
      (map (\<lambda>p. ''  IdentityFile '' @ p) (p # ps) @ rest) (c(h \<mapsto> acc)) =
    parseLines sched w (Suc i + length ps) rest (c(h \<mapsto> (acc @ [p]) @ ps))" .
  moreover have "Suc i + length ps = i + length (p # ps)" by simp
  moreover have "(acc @ [p]) @ ps = acc @ p # ps" by simp
  ultimately show ?case by (simp only:)
qed

lemma parse_block:
  assumes "stableHost h" and "config h = Some ps" and "\<forall>p \<in> set ps. stablePath w p"
    and "\<And>j acc. getLastHost (sched (GetLastHost j) (c(h \<mapsto> acc))) (c(h \<mapsto> acc)) = h"
  shows "parseLines sched w i (blockLines config h @ rest) c =
         parseLines sched w (i + length (blockLines config h)) rest (c(h \<mapsto> ps))"
proof -
  have lk: "lookup config h = ps" using assms(2) by (simp add: lookup_def)
  have line: "hostLine (''Host '' @ h)" "hostName (''Host '' @ h) = h"
    using assms(1) by (rule block_host_line)+
  have bl: "blockLines config h @ rest =
      (''Host '' @ h) # (map (\<lambda>p. ''  IdentityFile '' @ p) ps @ ([] # rest))"
    by (simp add: blockLines_def lk)
  have "parseLines sched w i (blockLines config h @ rest) c =
      parseLines sched w (Suc i)
        (map (\<lambda>p. ''  IdentityFile '' @ p) ps @ ([] # rest)) (c(h \<mapsto> []))"
    unfolding bl by (simp only: parseLines_Cons line if_True)
  also have "\<dots> = parseLines sched w (Suc i + length ps) ([] # rest) (c(h \<mapsto> [] @ ps))"
    using assms(4) assms(3) by (rule parse_identity_lines)
  also have "\<dots> = parseLines sched w (Suc (Suc i + length ps)) rest (c(h \<mapsto> ps))"
    by (simp only: parseLines_Cons blank_line if_False append_Nil)
  finally have "parseLines sched w i (blockLines config h @ rest) c =
      parseLines sched w (Suc (Suc i + length ps)) rest (c(h \<mapsto> ps))" .
  moreover have "Suc (Suc i + length ps) = i + length (blockLines config h)"
    by (simp add: blockLines_def lk)
  ultimately show ?thesis by (simp only:)
qed

lemma parse_blocks:
  assumes "stableConfig w config" and "declaredLast sched config"
  shows "sorted_wrt (<) hs \<Longrightarrow> set hs \<subseteq> dom config \<Longrightarrow> finite (dom c) \<Longrightarrow>
     dom c \<subseteq> dom config \<Longrightarrow> (\<forall>x \<in> dom c. \<forall>h \<in> set hs. x < h) \<Longrightarrow>
     parseLines sched w i (concat (map (blockLines config) hs)) c =
       Inr (c ++ (config |` set hs))"
proof (induction hs arbitrary: i c)
  case Nil
  then show ?case by simp
next
  case (Cons h hs)
  from Cons.prems(2) obtain ps where ps: "config h = Some ps" by auto
  with assms(1) have sh: "stableHost h" and sp: "\<forall>p \<in> set ps. stablePath w p"
    unfolding stableConfig_def by blast+
  have below: "\<forall>x \<in> dom c. x < h" using Cons.prems(5) by simp
  have lasth: "getLastHost (sched (GetLastHost j) (c(h \<mapsto> acc))) (c(h \<mapsto> acc)) = h" for j acc
  proof -
    have "c(h \<mapsto> acc) \<noteq> Map.empty" by simp
    moreover have "dom (c(h \<mapsto> acc)) \<subseteq> dom config"
      using Cons.prems(2,4) by auto
    ultimately have "getLastHost (sched (GetLastHost j) (c(h \<mapsto> acc))) (c(h \<mapsto> acc)) =
        Max (dom (c(h \<mapsto> acc)))"
      using assms(2) unfolding declaredLast_def by blast
    also have "\<dots> = h" using Cons.prems(3) below by (rule Max_new_host)
    finally show ?thesis .
  qed
  have cc: "concat (map (blockLines config) (h # hs)) =
      blockLines config h @ concat (map (blockLines config) hs)"
    by simp
  have step: "parseLines sched w i (concat (map (blockLines config) (h # hs))) c =
      parseLines sched w (i + length (blockLines config h))
        (concat (map (blockLines config) hs)) (c(h \<mapsto> ps))"
    unfolding cc
    by (rule parse_block [where c = c and sched = sched and config = config and h = h
          and ps = ps and w = w, OF sh ps sp lasth])
  have sorted: "sorted_wrt (<) hs" and above: "\<forall>h' \<in> set hs. h < h'"
    using Cons.prems(1) by simp_all
  have sub: "set hs \<subseteq> dom config" using Cons.prems(2) by simp
  have fin: "finite (dom (c(h \<mapsto> ps)))" using Cons.prems(3) by simp
  have dsub: "dom (c(h \<mapsto> ps)) \<subseteq> dom config" using Cons.prems(2,4) by auto
  have lt: "\<forall>x \<in> dom (c(h \<mapsto> ps)). \<forall>h' \<in> set hs. x < h'"
    using above Cons.prems(5) by auto
  have ih: "parseLines sched w (i + length (blockLines config h))
        (concat (map (blockLines config) hs)) (c(h \<mapsto> ps)) =
      Inr (c(h \<mapsto> ps) ++ (config |` set hs))"
    by (rule Cons.IH [OF sorted sub fin dsub lt])
  have eq: "c(h \<mapsto> ps) ++ (config |` set hs) = c ++ (config |` set (h # hs))"
  proof (rule ext)
    fix x
    have "h \<notin> set hs" using above by auto
    then show "(c(h \<mapsto> ps) ++ (config |` set hs)) x = (c ++ (config |` set (h # hs))) x"
      using ps by (auto simp: map_add_def restrict_map_def split: option.splits)
  qed
  show ?case by (simp only: step ih eq)
qed

lemma blockLines_no_newline:
  assumes "stableConfig w config" and "h \<in> dom config" and "l \<in> set (blockLines config h)"
  shows "newline \<notin> set l"
proof -
  from assms(2) obtain ps where ps: "config h = Some ps" by auto
  with assms(1) have sh: "stableHost h" and sp: "\<forall>p \<in> set ps. stablePath w p"
    unfolding stableConfig_def by blast+
  have lk: "lookup config h = ps" using ps by (simp add: lookup_def)
  have nl: "newline \<notin> set ''Host ''" "newline \<notin> set ''  IdentityFile ''"
    by (simp_all add: newline_def)
  from assms(3) consider "l = ''Host '' @ h" | p where "p \<in> set ps" "l = ''  IdentityFile '' @ p"
    | "l = []"
    unfolding blockLines_def lk by auto
  then show ?thesis
  proof cases
    case 1
    have "newline \<notin> set h" using sh by (simp add: stableHost_def)
    with 1 nl(1) show ?thesis by (simp only: set_append Un_iff) simp
  next
    case 2
    with sp have "newline \<notin> set p" by (simp add: stablePath_def)
    with 2 nl(2) show ?thesis by (simp only: set_append Un_iff) simp
  next
    case 3
    then show ?thesis by simp
  qed
qed

lemma blockLines_nonempty: "blockLines config h \<noteq> []"
  by (simp add: blockLines_def)

text \<open>
  Claim C2, as stated, fails: \<open>mapKey\<close> stores the key string it is given, say the relative
  path \<open>id_a\<close>; the writer emits it as it is, and the parser expands every path it reads,
  here to \<open>/work/id_a\<close> in the working directory \<open>/work\<close>. (The mapping has one host, so
  the order of enumeration plays no part.)
\<close>

theorem roundtrip_relative_path_counterexample:
  "rangeOrder [''h'' \<mapsto> [''id_a'']] [''h'']
   \<and> writeConfig [''h''] ''/home/u/.ssh/config'' [''h'' \<mapsto> [''id_a'']] (exampleWorld Map.empty) =
       Inr (exampleWorld [''/home/u/.ssh/config'' \<mapsto> relativeText])
   \<and> parseConfig ascendingSched (exampleWorld [''/home/u/.ssh/config'' \<mapsto> relativeText]) =
       Inr [''h'' \<mapsto> [''/work/id_a'']]
   \<and> [''h'' \<mapsto> [''/work/id_a'']] \<noteq> [''h'' \<mapsto> [''id_a'']]"
proof -
  let ?w = "exampleWorld [''/home/u/.ssh/config'' \<mapsto> relativeText]"
  have ord: "rangeOrder [''h'' \<mapsto> [''id_a'']] [''h'']"
    by (simp add: rangeOrder_def)
  have rendered: "configText [''h''] [''h'' \<mapsto> [''id_a'']] = relativeText"
    by (simp add: configText_def hostBlock_def lookup_def relativeText_def)
  have wr: "writeConfig [''h''] ''/home/u/.ssh/config'' [''h'' \<mapsto> [''id_a'']]
      (exampleWorld Map.empty) = Inr ?w"
    by (simp add: writeConfig_def WriteFile_def rendered exampleWorld_def)
  have lines: "Split relativeText newline = [''Host h'', ''  IdentityFile id_a'', []]"
    by code_simp
  have trims: "TrimSpace ''Host h'' = ''Host h''" "TrimSpace ''h'' = ''h''"
    "TrimSpace ''  IdentityFile id_a'' = ''IdentityFile id_a''"
    "TrimSpace ''id_a'' = ''id_a''" "TrimSpace [] = []"
    by code_simp+
  have join: "JoinPath ''/work'' ''id_a'' = ''/work/id_a''"
    by code_simp
  have env: "files ?w ''/home/u/.ssh/config'' = Some relativeText"
    "workingDir ?w = Some ''/work''"
    by (simp_all add: exampleWorld_def)
  have p: "parseConfig ascendingSched ?w = Inr [''h'' \<mapsto> [''/work/id_a'']]"
    by (simp add: parseConfig_def exampleConfigPath ReadFile_def env lines trims join
        parseLines.simps HasPrefix_def TrimPrefix_def expandPath_def Abs_def IsAbs_def
        getLastHost_def ascendingSched_def lookup_def)
  have "[''h'' \<mapsto> [''/work/id_a'']] ''h'' \<noteq> [''h'' \<mapsto> [''id_a'']] ''h''"
    by simp
  then have ne: "[''h'' \<mapsto> [''/work/id_a'']] \<noteq> [''h'' \<mapsto> [''id_a'']]"
    by metis
  from ord wr p ne show ?thesis by blast
qed

text \<open>
  Claim C2, amended. For a mapping whose host names and key paths come back from their
  lines (\<open>stableConfig\<close>), parsing the file \<open>writeConfig\<close> wrote gives the mapping again, in
  every run in which \<open>getLastHost\<close> returns the host declared last (\<open>declaredLast\<close>). The
  order in which the writer enumerated the map plays no part. Nothing is said of the runs
  in which the runtime enumerates the hosts otherwise.
\<close>

theorem parseConfig_writeConfig_roundtrip:
  assumes "rangeOrder config ks"
    and "stableConfig w config"
    and "declaredLast sched config"
    and "getConfigPath w = Inr configPath"
    and "writeConfig ks configPath config w = Inr w'"
  shows "parseConfig sched w' = Inr config"
proof -
  let ?hosts = "sorted_list_of_set (dom config)"
  let ?lines = "concat (map (blockLines config) ?hosts)"
  have fin: "finite (dom config)" using assms(1) by (rule rangeOrder_finite)
  have hosts: "set ?hosts = dom config" using fin by simp
  have rendered: "configText ks config = Join ?lines [newline]"
    using assms(1) by (rule configText_eq)
  from assms(5) have w': "w' = w\<lparr>files := (files w)(configPath \<mapsto> Join ?lines [newline])\<rparr>"
    by (simp add: writeConfig_def WriteFile_def rendered split: if_splits)
  have stable: "stableConfig w' config"
    using assms(2) by (simp add: stableConfig_def w' stablePath_files)
  have run: "parseConfig sched w' = parseLines sched w' 0 (Split (Join ?lines [newline]) newline) Map.empty"
    using assms(4) by (simp add: parseConfig_def w' ReadFile_def)
  show ?thesis
  proof (cases "dom config = {}")
    case True
    then have "config = Map.empty" by simp
    moreover have "?lines = []" using True by simp
    ultimately show ?thesis
      unfolding run using blank_line by (simp add: parseLines_Cons)
  next
    case False
    then obtain h hs where hhs: "?hosts = h # hs"
      using hosts by (cases ?hosts) auto
    have ne: "?lines \<noteq> []"
      unfolding hhs using blockLines_nonempty [of config h] by simp
    have "\<forall>l \<in> set ?lines. newline \<notin> set l"
      using blockLines_no_newline [OF assms(2)] hosts by auto
    with ne have split: "Split (Join ?lines [newline]) newline = ?lines"
      by (rule Split_Join)
    have "parseLines sched w' 0 ?lines Map.empty = Inr (Map.empty ++ (config |` set ?hosts))"
    proof (rule parse_blocks [OF stable assms(3)])
      show "sorted_wrt (<) ?hosts" by (simp add: strict_sorted_list_of_set)
      show "set ?hosts \<subseteq> dom config" using hosts by simp
      show "finite (dom (Map.empty :: config))" by simp
      show "dom (Map.empty :: config) \<subseteq> dom config" by simp
      show "\<forall>x \<in> dom (Map.empty :: config). \<forall>h \<in> set ?hosts. x < h" by simp
    qed
    moreover have "Map.empty ++ (config |` set ?hosts) = config"
    proof (rule ext)
      fix x
      show "(Map.empty ++ (config |` set ?hosts)) x = config x"
        unfolding hosts by (cases "config x") (auto simp: map_add_def restrict_map_def)
    qed
    ultimately show ?thesis
      unfolding run split by (simp only:)
  qed
qed

theorem parseConfig_writeConfig_roundtrip_witness:
  "rangeOrder [''bar'' \<mapsto> [''/abs/id_b''], ''foo'' \<mapsto> [''/home/u/.ssh/id_a'']] [''foo'', ''bar'']
   \<and> stableConfig (exampleWorld Map.empty)
        [''bar'' \<mapsto> [''/abs/id_b''], ''foo'' \<mapsto> [''/home/u/.ssh/id_a'']]
   \<and> declaredLast ascendingSched
        [''bar'' \<mapsto> [''/abs/id_b''], ''foo'' \<mapsto> [''/home/u/.ssh/id_a'']]
   \<and> getConfigPath (exampleWorld Map.empty) = Inr ''/home/u/.ssh/config''
   \<and> writeConfig [''foo'', ''bar''] ''/home/u/.ssh/config''
        [''bar'' \<mapsto> [''/abs/id_b''], ''foo'' \<mapsto> [''/home/u/.ssh/id_a'']]
        (exampleWorld Map.empty) =
       Inr (exampleWorld [''/home/u/.ssh/config'' \<mapsto> twoHostText])
   \<and> parseConfig ascendingSched (exampleWorld [''/home/u/.ssh/config'' \<mapsto> twoHostText]) =
       Inr [''bar'' \<mapsto> [''/abs/id_b''], ''foo'' \<mapsto> [''/home/u/.ssh/id_a'']]"
proof -
  let ?c = "[''bar'' \<mapsto> [''/abs/id_b''], ''foo'' \<mapsto> [''/home/u/.ssh/id_a'']]"
  let ?w = "exampleWorld Map.empty"
  have ord: "rangeOrder ?c [''foo'', ''bar'']"
    by (auto simp: rangeOrder_def)
  have hosts: "stableHost ''foo''" "stableHost ''bar''"
    by code_simp+
  have strings: "TrimSpace ''/abs/id_b'' = ''/abs/id_b''"
    "TrimSpace ''/home/u/.ssh/id_a'' = ''/home/u/.ssh/id_a''"
    "Clean ''/abs/id_b'' = ''/abs/id_b''"
    "Clean ''/home/u/.ssh/id_a'' = ''/home/u/.ssh/id_a''"
    by code_simp+
  have paths: "stablePath ?w ''/abs/id_b''" "stablePath ?w ''/home/u/.ssh/id_a''"
    by (simp_all add: stablePath_def strings newline_def expandPath_def Abs_def IsAbs_def
        HasPrefix_def)
  have stable: "stableConfig ?w ?c"
    unfolding stableConfig_def using hosts paths by (auto split: if_splits)
  have dl: "declaredLast ascendingSched ?c"
    by (rule declaredLast_ascending) simp
  have sorted: "sort [''foo'', ''bar''] = [''bar'', ''foo'']"
    by simp
  have rendered: "configText [''foo'', ''bar''] ?c = twoHostText"
    by (simp add: configText_def sorted hostBlock_def lookup_def twoHostText_def)
  have wr: "writeConfig [''foo'', ''bar''] ''/home/u/.ssh/config'' ?c ?w =
      Inr (exampleWorld [''/home/u/.ssh/config'' \<mapsto> twoHostText])"
    by (simp add: writeConfig_def WriteFile_def rendered exampleWorld_def)
  from ord stable dl exampleConfigPath wr
    parseConfig_writeConfig_roundtrip [OF ord stable dl exampleConfigPath wr]
  show ?thesis by blast
qed

end
